theory Spec2Isabelle
  imports Complex_Main
begin

section \<open>Numeric values and errors\<close>

text \<open>
  The arrays of the simulation hold numpy float64 values.  They are modelled in exact
  arithmetic: a finite value is a real number, and the three non-finite values that numpy
  produces instead of raising (division by zero only warns) are kept as constructors.
  Signed zeros and rounding are outside the model.
\<close>

datatype npfloat = Fin real | PInf | NInf | NaN

datatype error = ValueError | IndexError | ZeroDivisionError

fun fl_neg :: "npfloat \<Rightarrow> npfloat" where
  "fl_neg (Fin a) = Fin (- a)"
| "fl_neg PInf = NInf"
| "fl_neg NInf = PInf"
| "fl_neg NaN = NaN"

fun fl_add :: "npfloat \<Rightarrow> npfloat \<Rightarrow> npfloat" where
  "fl_add (Fin a) (Fin b) = Fin (a + b)"
| "fl_add NaN y = NaN"
| "fl_add x NaN = NaN"
| "fl_add PInf NInf = NaN"
| "fl_add NInf PInf = NaN"
| "fl_add PInf y = PInf"
| "fl_add x PInf = PInf"
| "fl_add NInf y = NInf"
| "fl_add x NInf = NInf"

definition fl_sub :: "npfloat \<Rightarrow> npfloat \<Rightarrow> npfloat" where
  "fl_sub x y = fl_add x (fl_neg y)"

fun fl_mul :: "npfloat \<Rightarrow> npfloat \<Rightarrow> npfloat" where
  "fl_mul (Fin a) (Fin b) = Fin (a * b)"
| "fl_mul NaN y = NaN"
| "fl_mul x NaN = NaN"
| "fl_mul (Fin a) PInf = (if a = 0 then NaN else if 0 < a then PInf else NInf)"
| "fl_mul (Fin a) NInf = (if a = 0 then NaN else if 0 < a then NInf else PInf)"
| "fl_mul PInf (Fin b) = (if b = 0 then NaN else if 0 < b then PInf else NInf)"
| "fl_mul NInf (Fin b) = (if b = 0 then NaN else if 0 < b then NInf else PInf)"
| "fl_mul PInf PInf = PInf"
| "fl_mul NInf NInf = PInf"
| "fl_mul PInf NInf = NInf"
| "fl_mul NInf PInf = NInf"

fun fl_div :: "npfloat \<Rightarrow> npfloat \<Rightarrow> npfloat" where
  "fl_div (Fin a) (Fin b) =
     (if b \<noteq> 0 then Fin (a / b)
      else if a = 0 then NaN else if 0 < a then PInf else NInf)"
| "fl_div NaN y = NaN"
| "fl_div x NaN = NaN"
| "fl_div (Fin a) y = Fin 0"
| "fl_div PInf (Fin b) = (if 0 \<le> b then PInf else NInf)"
| "fl_div NInf (Fin b) = (if 0 \<le> b then NInf else PInf)"
| "fl_div x y = NaN"

text \<open>\<open>x ** 0.5\<close> on an array: numpy evaluates the exponent 0.5 as a square root.\<close>

fun fl_sqrt :: "npfloat \<Rightarrow> npfloat" where
  "fl_sqrt (Fin a) = (if 0 \<le> a then Fin (sqrt a) else NaN)"
| "fl_sqrt PInf = PInf"
| "fl_sqrt NInf = NaN"
| "fl_sqrt NaN = NaN"

fun fl_exp :: "npfloat \<Rightarrow> npfloat" where
  "fl_exp (Fin a) = Fin (exp a)"
| "fl_exp PInf = PInf"
| "fl_exp NInf = Fin 0"
| "fl_exp NaN = NaN"

text \<open>\<open>np.log\<close> of a Python integer.\<close>

definition np_log :: "nat \<Rightarrow> npfloat" where
  "np_log t = (if t = 0 then NInf else Fin (ln (real t)))"

text \<open>The comparison \<open>x <= y\<close> of IEEE values: false as soon as one side is NaN.\<close>

fun fl_le :: "npfloat \<Rightarrow> npfloat \<Rightarrow> bool" where
  "fl_le (Fin a) (Fin b) = (a \<le> b)"
| "fl_le NaN y = False"
| "fl_le x NaN = False"
| "fl_le NInf y = True"
| "fl_le x PInf = True"
| "fl_le x y = False"

fun is_Fin :: "npfloat \<Rightarrow> bool" where
  "is_Fin (Fin a) = True"
| "is_Fin x = False"

text \<open>
  Elementwise operations on one-dimensional arrays follow numpy's broadcasting: equal
  lengths combine pointwise, a length-one operand is stretched, anything else raises
  ValueError.  An in-place operation (\<open>+=\<close>, \<open>-=\<close>, \<open>/=\<close>) keeps the shape of its
  left operand, so only the right operand may be stretched.
\<close>

definition np_broadcast :: "('a \<Rightarrow> 'b \<Rightarrow> 'c) \<Rightarrow> 'a list \<Rightarrow> 'b list \<Rightarrow> error + 'c list" where
  "np_broadcast f xs ys =
     (if length xs = length ys then Inr (map2 f xs ys)
      else if length xs = 1 then Inr (map (f (hd xs)) ys)
      else if length ys = 1 then Inr (map (\<lambda>x. f x (hd ys)) xs)
      else Inl ValueError)"

definition np_inplace :: "('a \<Rightarrow> 'b \<Rightarrow> 'a) \<Rightarrow> 'a list \<Rightarrow> 'b list \<Rightarrow> error + 'a list" where
  "np_inplace f xs ys =
     (if length xs = length ys then Inr (map2 f xs ys)
      else if length ys = 1 then Inr (map (\<lambda>x. f x (hd ys)) xs)
      else Inl ValueError)"

text \<open>
  \<open>np.argmax\<close>: the first index holding the maximum; a NaN counts as the maximum and
  stops the scan; an empty array raises ValueError.
\<close>

fun argmax_scan :: "npfloat \<Rightarrow> nat \<Rightarrow> nat \<Rightarrow> npfloat list \<Rightarrow> nat" where
  "argmax_scan mp max_ind i [] = max_ind"
| "argmax_scan mp max_ind i (x # xs) =
     (if mp = NaN then max_ind
      else if \<not> fl_le x mp then argmax_scan x i (Suc i) xs
      else argmax_scan mp max_ind (Suc i) xs)"

fun np_argmax :: "npfloat list \<Rightarrow> error + nat" where
  "np_argmax [] = Inl ValueError"
| "np_argmax (x # xs) = Inr (argmax_scan x 0 1 xs)"

section \<open>The random generator\<close>

text \<open>
  \<open>np.random\<close> is the process-wide generator.  Its state is an arbitrary stream of real
  draws and the number of draws consumed so far; every sampling function consumes one
  draw.  A normal sample is \<open>loc + scale * z\<close> for the standard draw \<open>z\<close>; a coin and a
  uniform index are read off the fractional part of the draw.
\<close>

record np_random =
  draws :: "nat \<Rightarrow> real"
  drawn :: nat

definition next_draw :: "np_random \<Rightarrow> real \<times> np_random" where
  "next_draw g = (draws g (drawn g), g\<lparr>drawn := Suc (drawn g)\<rparr>)"

definition random_normal :: "real \<Rightarrow> real \<Rightarrow> np_random \<Rightarrow> error + real \<times> np_random" where
  "random_normal loc scale g =
     (if scale < 0 then Inl ValueError
      else let (z, g') = next_draw g in Inr (loc + scale * z, g'))"

definition random_binomial1 :: "real \<Rightarrow> np_random \<Rightarrow> error + nat \<times> np_random" where
  "random_binomial1 p g =
     (if p < 0 \<or> 1 < p then Inl ValueError
      else let (u, g') = next_draw g in Inr (if frac u < p then 1 else 0, g'))"

definition random_randint0 :: "nat \<Rightarrow> np_random \<Rightarrow> error + nat \<times> np_random" where
  "random_randint0 high g =
     (if high = 0 then Inl ValueError
      else let (u, g') = next_draw g in Inr (nat \<lfloor>frac u * real high\<rfloor>, g'))"

section \<open>Arm and Bandit\<close>

record Arm =
  arm_q :: real
  arm_incr_dev :: real

text \<open>\<open>Arm.__init__\<close> with the setter of \<open>q\<close>: an absent value is drawn from N(0, 1).\<close>

definition Arm_init :: "real \<Rightarrow> real option \<Rightarrow> np_random \<Rightarrow> Arm \<times> np_random" where
  "Arm_init incr_dev value g =
     (case value of
        None \<Rightarrow> (let (z, g') = next_draw g in (\<lparr>arm_q = z, arm_incr_dev = incr_dev\<rparr>, g'))
      | Some v \<Rightarrow> (\<lparr>arm_q = v, arm_incr_dev = incr_dev\<rparr>, g))"

definition Arm_action :: "Arm \<Rightarrow> np_random \<Rightarrow> real \<times> np_random" where
  "Arm_action a g = (let (z, g') = next_draw g in (arm_q a + z, g'))"

definition Arm_reset_q :: "Arm \<Rightarrow> np_random \<Rightarrow> error + Arm \<times> np_random" where
  "Arm_reset_q a g =
     (if arm_incr_dev a \<noteq> 0 then
        (case random_normal 0 (arm_incr_dev a) g of
           Inl e \<Rightarrow> Inl e
         | Inr (d, g') \<Rightarrow> Inr (a\<lparr>arm_q := arm_q a + d\<rparr>, g'))
      else Inr (a, g))"

record Bandit =
  bandit_n :: nat
  bandit_q :: "real option list"
  bandit_incr_dev :: real
  arms :: "Arm list"

text \<open>The list comprehension \<open>[Arm(self.incr_dev, arm_value) for arm_value in self.q]\<close>.\<close>

fun make_arms :: "real \<Rightarrow> real option list \<Rightarrow> np_random \<Rightarrow> Arm list \<times> np_random" where
  "make_arms incr_dev [] g = ([], g)"
| "make_arms incr_dev (v # vs) g =
     (let (a, g1) = Arm_init incr_dev v g;
          (as, g2) = make_arms incr_dev vs g1
      in (a # as, g2))"

text \<open>The setter of \<open>Bandit.q\<close>: the stored specification of the arms.\<close>

definition Bandit_set_q :: "nat \<Rightarrow> real option list option \<Rightarrow> error + real option list" where
  "Bandit_set_q n value =
     (case value of
        None \<Rightarrow> Inr (replicate n None)
      | Some vs \<Rightarrow> if length vs \<noteq> n then Inl ValueError else Inr vs)"

definition Bandit_init ::
  "nat \<Rightarrow> real option list option \<Rightarrow> real \<Rightarrow> np_random \<Rightarrow> error + Bandit \<times> np_random" where
  "Bandit_init n q incr_dev g =
     (case Bandit_set_q n q of
        Inl e \<Rightarrow> Inl e
      | Inr qs \<Rightarrow>
          (let (as, g') = make_arms incr_dev qs g
           in Inr (\<lparr>bandit_n = n, bandit_q = qs, bandit_incr_dev = incr_dev, arms = as\<rparr>, g')))"

definition Bandit_reset :: "Bandit \<Rightarrow> np_random \<Rightarrow> Bandit \<times> np_random" where
  "Bandit_reset b g =
     (let (as, g') = make_arms (bandit_incr_dev b) (bandit_q b) g
      in (b\<lparr>arms := as\<rparr>, g'))"

text \<open>
  The loop \<open>for arm in self.arms: arm.reset_q()\<close>.  The arms are objects mutated in
  place, so a raise part-way leaves the earlier arms drifted: the arms and the generator
  are returned together with the error, if any.
\<close>

fun drift_arms :: "Arm list \<Rightarrow> np_random \<Rightarrow> error option \<times> Arm list \<times> np_random" where
  "drift_arms [] g = (None, [], g)"
| "drift_arms (a # as) g =
     (case Arm_reset_q a g of
        Inl e \<Rightarrow> (Some e, a # as, g)
      | Inr (a', g1) \<Rightarrow>
          (let (e, as', g2) = drift_arms as g1 in (e, a' # as', g2)))"

text \<open>
  \<open>Bandit.action\<close>: drift every arm, then pull the selected one.  The first component
  is the returned reward or the exception raised; the bandit and the generator are as
  the call leaves them in either case.
\<close>

definition Bandit_action ::
  "Bandit \<Rightarrow> nat \<Rightarrow> np_random \<Rightarrow> (error + real) \<times> Bandit \<times> np_random" where
  "Bandit_action b indx g =
     (let (e, as, g1) = drift_arms (arms b) g;
          b' = b\<lparr>arms := as\<rparr>
      in case e of
           Some e \<Rightarrow> (Inl e, b', g1)
         | None \<Rightarrow>
             if indx < length as
             then (let (r, g2) = Arm_action (as ! indx) g1 in (Inr r, b', g2))
             else (Inl IndexError, b', g1))"

text \<open>Any number of \<open>Bandit.action\<close> calls in a row, whatever each of them returns.\<close>

fun Bandit_actions ::
  "Bandit \<Rightarrow> nat list \<Rightarrow> np_random \<Rightarrow> (error + real) list \<times> Bandit \<times> np_random" where
  "Bandit_actions b [] g = ([], b, g)"
| "Bandit_actions b (i # is) g =
     (let (r, b1, g1) = Bandit_action b i g;
          (rs, b2, g2) = Bandit_actions b1 is g1
      in (r # rs, b2, g2))"


section \<open>Strategies\<close>

text \<open>
  A strategy receives the preference array, the array of action counts, the index of the
  arm just pulled and the reward, and returns the new preference array.  Counts are the
  non-negative whole numbers a player accumulates, indices are non-negative, and rewards
  are finite.  Indexing past the end of an array raises IndexError.
\<close>

text \<open>\<open>SampleAverages.estimate_values\<close>.\<close>

definition SampleAverages_estimate_values ::
  "npfloat list \<Rightarrow> nat list \<Rightarrow> nat \<Rightarrow> real \<Rightarrow> error + npfloat list" where
  "SampleAverages_estimate_values prefs counts indx reward =
     (if indx < length prefs \<and> indx < length counts
      then Inr (prefs[indx :=
             fl_add (prefs ! indx)
               (fl_mul (fl_div (Fin 1) (Fin (real (counts ! indx))))
                  (fl_sub (Fin reward) (prefs ! indx)))])
      else Inl IndexError)"

text \<open>\<open>ConstantStepSize.estimate_values\<close>, with the step size \<open>alpha\<close> of the instance.\<close>

definition ConstantStepSize_estimate_values ::
  "real \<Rightarrow> npfloat list \<Rightarrow> nat list \<Rightarrow> nat \<Rightarrow> real \<Rightarrow> error + npfloat list" where
  "ConstantStepSize_estimate_values alpha prefs counts indx reward =
     (if indx < length prefs
      then Inr (prefs[indx :=
             fl_add (prefs ! indx) (fl_mul (Fin alpha) (fl_sub (Fin reward) (prefs ! indx)))])
      else Inl IndexError)"

record UCB_state =
  ucb_c :: real
  ucb_time :: nat
  ucb_values :: "npfloat list option"

definition UCB_init :: "real \<Rightarrow> UCB_state" where
  "UCB_init c = \<lparr>ucb_c = c, ucb_time = 1, ucb_values = None\<rparr>"

text \<open>\<open>UCB._init_values\<close> behind its guard: the value array after lazy creation.\<close>

definition UCB_init_values :: "UCB_state \<Rightarrow> nat \<Rightarrow> npfloat list" where
  "UCB_init_values st len =
     (case ucb_values st of None \<Rightarrow> replicate len (Fin 0) | Some vs \<Rightarrow> vs)"

text \<open>
  \<open>UCB.estimate_values\<close>.  The incoming preferences are read for their length only; the
  result is a fresh array built from the internal values and the action counts.
\<close>

definition UCB_estimate_values ::
  "UCB_state \<Rightarrow> npfloat list \<Rightarrow> nat list \<Rightarrow> nat \<Rightarrow> real \<Rightarrow>
   error + UCB_state \<times> npfloat list" where
  "UCB_estimate_values st prefs counts indx reward =
     (let vs = UCB_init_values st (length prefs);
          t = ucb_time st + 1
      in if indx < length vs \<and> indx < length counts
         then
           (let vs' = vs[indx :=
                  fl_add (vs ! indx)
                    (fl_mul (fl_div (Fin 1) (Fin (real (counts ! indx))))
                       (fl_sub (Fin reward) (vs ! indx)))];
                bonus = map (\<lambda>n. fl_mul (Fin (ucb_c st))
                                   (fl_sqrt (fl_div (np_log t) (Fin (real n))))) counts
            in case np_broadcast fl_add vs' bonus of
                 Inl e \<Rightarrow> Inl e
               | Inr out \<Rightarrow> Inr (st\<lparr>ucb_time := t, ucb_values := Some vs'\<rparr>, out))
         else Inl IndexError)"

record GradientBandit_state =
  gb_alpha :: real
  gb_mean_reward :: real
  gb_time :: nat
  gb_probs :: "npfloat list option"

definition GradientBandit_init :: "real \<Rightarrow> GradientBandit_state" where
  "GradientBandit_init alpha =
     \<lparr>gb_alpha = alpha, gb_mean_reward = 0, gb_time = 0, gb_probs = None\<rparr>"

text \<open>\<open>GradientBandit._init_probs\<close> behind its guard: \<open>np.ones(length) / length\<close>.\<close>

definition GradientBandit_init_probs :: "GradientBandit_state \<Rightarrow> nat \<Rightarrow> npfloat list" where
  "GradientBandit_init_probs st len =
     (case gb_probs st of
        None \<Rightarrow> map (\<lambda>x. fl_div x (Fin (real len))) (replicate len (Fin 1))
      | Some ps \<Rightarrow> ps)"

text \<open>
  \<open>GradientBandit._derive_probs\<close>: exponentiate, then divide in place by Python's
  \<open>sum\<close>, which adds the entries from the left starting at 0.
\<close>

definition py_sum :: "npfloat list \<Rightarrow> npfloat" where
  "py_sum xs = foldl fl_add (Fin 0) xs"

definition GradientBandit_derive_probs :: "npfloat list \<Rightarrow> npfloat list" where
  "GradientBandit_derive_probs prefs =
     (let es = map fl_exp prefs in map (\<lambda>x. fl_div x (py_sum es)) es)"

text \<open>\<open>GradientBandit.estimate_values\<close>.\<close>

definition GradientBandit_estimate_values ::
  "GradientBandit_state \<Rightarrow> npfloat list \<Rightarrow> nat list \<Rightarrow> nat \<Rightarrow> real \<Rightarrow>
   error + GradientBandit_state \<times> npfloat list" where
  "GradientBandit_estimate_values st prefs counts indx reward =
     (let ps = GradientBandit_init_probs st (length prefs);
          t = gb_time st + 1;
          m = gb_mean_reward st + 1 / real t * (reward - gb_mean_reward st);
          k = gb_alpha st * (reward - m)
      in case np_inplace fl_sub prefs (map (fl_mul (Fin k)) ps) of
           Inl e \<Rightarrow> Inl e
         | Inr prefs1 \<Rightarrow>
             if indx < length prefs1
             then
               (let prefs2 = prefs1[indx := fl_add (prefs1 ! indx) (Fin k)]
                in Inr (st\<lparr>gb_mean_reward := m, gb_time := t,
                          gb_probs := Some (GradientBandit_derive_probs prefs2)\<rparr>, prefs2))
             else Inl IndexError)"

text \<open>The closed family of strategies, each carrying the state of its instance.\<close>

datatype Strategy =
    SampleAverages
  | ConstantStepSize real
  | UCB UCB_state
  | GradientBandit GradientBandit_state

fun estimate_values ::
  "Strategy \<Rightarrow> npfloat list \<Rightarrow> nat list \<Rightarrow> nat \<Rightarrow> real \<Rightarrow> error + Strategy \<times> npfloat list" where
  "estimate_values SampleAverages prefs counts indx reward =
     (case SampleAverages_estimate_values prefs counts indx reward of
        Inl e \<Rightarrow> Inl e
      | Inr prefs' \<Rightarrow> Inr (SampleAverages, prefs'))"
| "estimate_values (ConstantStepSize alpha) prefs counts indx reward =
     (case ConstantStepSize_estimate_values alpha prefs counts indx reward of
        Inl e \<Rightarrow> Inl e
      | Inr prefs' \<Rightarrow> Inr (ConstantStepSize alpha, prefs'))"
| "estimate_values (UCB st) prefs counts indx reward =
     (case UCB_estimate_values st prefs counts indx reward of
        Inl e \<Rightarrow> Inl e
      | Inr (st', prefs') \<Rightarrow> Inr (UCB st', prefs'))"
| "estimate_values (GradientBandit st) prefs counts indx reward =
     (case GradientBandit_estimate_values st prefs counts indx reward of
        Inl e \<Rightarrow> Inl e
      | Inr (st', prefs') \<Rightarrow> Inr (GradientBandit st', prefs'))"

section \<open>BanditPlayer\<close>

record BanditPlayer =
  eps :: real
  n_steps :: nat
  strategy :: Strategy
  optimist :: bool
  baseline :: real
  bandit :: Bandit
  rewards :: "real list"
  number_of_actions :: "nat list"
  preferences :: "npfloat list"
  name :: string

text \<open>
  The preference array of a fresh or reset player: \<open>np.zeros(n)\<close>, plus the baseline
  in place when the player is optimistic.
\<close>

definition initial_preferences :: "bool \<Rightarrow> real \<Rightarrow> nat \<Rightarrow> npfloat list" where
  "initial_preferences opt bl n =
     (if opt then map (\<lambda>x. fl_add x (Fin bl)) (replicate n (Fin 0))
      else replicate n (Fin 0))"

text \<open>\<open>BanditPlayer.__init__\<close>; the bandit is a private deep copy, that is, a value.\<close>

definition BanditPlayer_init ::
  "Bandit \<Rightarrow> real \<Rightarrow> nat \<Rightarrow> Strategy \<Rightarrow> bool \<Rightarrow> real \<Rightarrow> string \<Rightarrow> BanditPlayer" where
  "BanditPlayer_init b e ns s opt bl nm =
     \<lparr>eps = e, n_steps = ns, strategy = s, optimist = opt, baseline = bl, bandit = b,
      rewards = replicate ns 0,
      number_of_actions = replicate (bandit_n b) 0,
      preferences = initial_preferences opt bl (bandit_n b),
      name = nm\<rparr>"

text \<open>\<open>BanditPlayer.get_arms_id\<close>: explore with probability \<open>eps\<close>, else the argmax.\<close>

definition get_arms_id :: "BanditPlayer \<Rightarrow> np_random \<Rightarrow> error + nat \<times> np_random" where
  "get_arms_id p g =
     (case random_binomial1 (eps p) g of
        Inl e \<Rightarrow> Inl e
      | Inr (coin, g1) \<Rightarrow>
          if coin = 1 then random_randint0 (bandit_n (bandit p)) g1
          else (case np_argmax (preferences p) of
                  Inl e \<Rightarrow> Inl e
                | Inr indx \<Rightarrow> Inr (indx, g1)))"

text \<open>
  The first half of \<open>BanditPlayer.use_arm\<close>: the count of the chosen arm is incremented,
  the bandit is pulled, and the strategy is about to be called.  The result holds the
  four arguments of that call, \<open>(preferences, number_of_actions, indx, reward)\<close>,
  with the bandit and the generator as the pull left them.
\<close>

definition use_arm_call ::
  "BanditPlayer \<Rightarrow> nat \<Rightarrow> np_random \<Rightarrow>
   error + (npfloat list \<times> nat list \<times> nat \<times> real) \<times> Bandit \<times> np_random" where
  "use_arm_call p indx g =
     (if indx < length (number_of_actions p)
      then
        (let counts = (number_of_actions p)[indx := number_of_actions p ! indx + 1];
             (res, b', g') = Bandit_action (bandit p) indx g
         in case res of
              Inl e \<Rightarrow> Inl e
            | Inr reward \<Rightarrow> Inr ((preferences p, counts, indx, reward), b', g'))
      else Inl IndexError)"

text \<open>\<open>BanditPlayer.use_arm\<close>: the call itself, and the returned reward.\<close>

definition use_arm ::
  "BanditPlayer \<Rightarrow> nat \<Rightarrow> np_random \<Rightarrow> error + real \<times> BanditPlayer \<times> np_random" where
  "use_arm p indx g =
     (case use_arm_call p indx g of
        Inl e \<Rightarrow> Inl e
      | Inr ((prefs, counts, i, reward), b', g') \<Rightarrow>
          (case estimate_values (strategy p) prefs counts i reward of
             Inl e \<Rightarrow> Inl e
           | Inr (s', prefs') \<Rightarrow>
               Inr (reward,
                    p\<lparr>number_of_actions := counts, bandit := b', strategy := s',
                      preferences := prefs'\<rparr>, g')))"

text \<open>\<open>BanditPlayer.run\<close>: the loop over \<open>range(self.n_steps)\<close>.\<close>

fun run_steps ::
  "nat list \<Rightarrow> BanditPlayer \<Rightarrow> np_random \<Rightarrow> error + BanditPlayer \<times> np_random" where
  "run_steps [] p g = Inr (p, g)"
| "run_steps (step # steps) p g =
     (case get_arms_id p g of
        Inl e \<Rightarrow> Inl e
      | Inr (indx, g1) \<Rightarrow>
          (case use_arm p indx g1 of
             Inl e \<Rightarrow> Inl e
           | Inr (reward, p1, g2) \<Rightarrow>
               if step < length (rewards p1)
               then run_steps steps (p1\<lparr>rewards := (rewards p1)[step := reward]\<rparr>) g2
               else Inl IndexError))"

definition BanditPlayer_run :: "BanditPlayer \<Rightarrow> np_random \<Rightarrow> error + BanditPlayer \<times> np_random" where
  "BanditPlayer_run p g = run_steps [0..<n_steps p] p g"

text \<open>
  \<open>BanditPlayer.reset\<close>: the bandit, the rewards, the counts and the preferences are
  assigned; no other attribute is.
\<close>

definition BanditPlayer_reset :: "BanditPlayer \<Rightarrow> np_random \<Rightarrow> BanditPlayer \<times> np_random" where
  "BanditPlayer_reset p g =
     (let (b', g') = Bandit_reset (bandit p) g
      in (p\<lparr>bandit := b',
            rewards := replicate (n_steps p) 0,
            number_of_actions := replicate (bandit_n b') 0,
            preferences := initial_preferences (optimist p) (baseline p) (bandit_n b')\<rparr>, g'))"

text \<open>
  A sequence of \<open>use_arm\<close> calls at given indices: the steps of a run whatever the
  selection policy chooses.  The rewards are returned in the order received.
\<close>

fun use_arms ::
  "BanditPlayer \<Rightarrow> nat list \<Rightarrow> np_random \<Rightarrow> error + real list \<times> BanditPlayer \<times> np_random" where
  "use_arms p [] g = Inr ([], p, g)"
| "use_arms p (indx # indxs) g =
     (case use_arm p indx g of
        Inl e \<Rightarrow> Inl e
      | Inr (reward, p1, g1) \<Rightarrow>
          (case use_arms p1 indxs g1 of
             Inl e \<Rightarrow> Inl e
           | Inr (rs, p2, g2) \<Rightarrow> Inr (reward # rs, p2, g2)))"

section \<open>Benchmark\<close>

text \<open>
  The update of one running average in \<open>Benchmark.run\<close>:
  \<open>avg += 1 / epoch * (player.rewards - avg)\<close>.
\<close>

definition update_avg_rewards :: "real list \<Rightarrow> nat \<Rightarrow> real list \<Rightarrow> error + real list" where
  "update_avg_rewards avg epoch rs =
     (case np_broadcast (\<lambda>r a. r - a) rs avg of
        Inl e \<Rightarrow> Inl e
      | Inr diff \<Rightarrow> np_inplace (\<lambda>a d. a + d) avg (map (\<lambda>d. 1 / real epoch * d) diff))"

text \<open>
  The running average that \<open>Benchmark.run\<close> keeps for one player, over the epochs of
  \<open>range(1, self._n_epochs + 1)\<close>: in each epoch the player runs, its reward array is
  folded into the average, and the player is reset.  The reward array that the run of
  epoch \<open>epoch\<close> leaves in \<open>player.rewards\<close> is \<open>rewards_of epoch\<close>; the
  printing of the log and the plotting do not touch the averages and are left out.
\<close>

fun run_epochs :: "nat list \<Rightarrow> (nat \<Rightarrow> real list) \<Rightarrow> real list \<Rightarrow> error + real list" where
  "run_epochs [] rewards_of avg = Inr avg"
| "run_epochs (epoch # epochs) rewards_of avg =
     (case update_avg_rewards avg epoch (rewards_of epoch) of
        Inl e \<Rightarrow> Inl e
      | Inr avg' \<Rightarrow> run_epochs epochs rewards_of avg')"

text \<open>The average starts as \<open>np.zeros(player.n_steps)\<close> in \<open>Benchmark.__init__\<close>.\<close>

definition Benchmark_run_avg :: "nat \<Rightarrow> nat \<Rightarrow> (nat \<Rightarrow> real list) \<Rightarrow> error + real list" where
  "Benchmark_run_avg n_epochs_arg n_steps_arg rewards_of =
     run_epochs [1..<Suc n_epochs_arg] rewards_of (replicate n_steps_arg 0)"

section \<open>Concrete inputs\<close>

text \<open>Two generator states used to run the model on explicit inputs.\<close>

definition g_ones :: np_random where
  "g_ones = \<lparr>draws = (\<lambda>k. 1), drawn = 0\<rparr>"

definition g_halves :: np_random where
  "g_halves = \<lparr>draws = (\<lambda>k. 1 / 2), drawn = 0\<rparr>"

definition bandit_pm1 :: Bandit where
  "bandit_pm1 = \<lparr>bandit_n = 2, bandit_q = [Some 1, Some (- 1)], bandit_incr_dev = 1,
     arms = [\<lparr>arm_q = 1, arm_incr_dev = 1\<rparr>, \<lparr>arm_q = - 1, arm_incr_dev = 1\<rparr>]\<rparr>"

text \<open>
  A stationary two-armed bandit with true values 1 and -1, and a greedy one-step player
  on it that follows UCB with \<open>c = 2\<close>, before and after its run on \<open>g_ones\<close>.
\<close>

definition bandit_fixed :: Bandit where
  "bandit_fixed = \<lparr>bandit_n = 2, bandit_q = [Some 1, Some (- 1)], bandit_incr_dev = 0,
     arms = [\<lparr>arm_q = 1, arm_incr_dev = 0\<rparr>, \<lparr>arm_q = - 1, arm_incr_dev = 0\<rparr>]\<rparr>"

definition player_ucb :: BanditPlayer where
  "player_ucb = BanditPlayer_init bandit_fixed 0 1 (UCB (UCB_init 2)) False 5 ''UCB''"

definition player_ucb_after :: BanditPlayer where
  "player_ucb_after =
     \<lparr>eps = 0, n_steps = 1,
      strategy = UCB \<lparr>ucb_c = 2, ucb_time = 2, ucb_values = Some [Fin 2, Fin 0]\<rparr>,
      optimist = False, baseline = 5, bandit = bandit_fixed,
      rewards = [2], number_of_actions = [1, 0],
      preferences = [Fin (2 + 2 * sqrt (ln 2)), PInf], name = ''UCB''\<rparr>"

text \<open>An optimistic sample-average player on the drifting bandit of \<open>bandit_pm1\<close>.\<close>

definition player_sa :: BanditPlayer where
  "player_sa = BanditPlayer_init bandit_pm1 0 3 SampleAverages True 5 ''optimistic''"

text \<open>
  A UCB instance that has been called once, holding the values 2 and 0, and a
  gradient-bandit instance holding non-uniform probabilities.
\<close>

definition ucb_state2 :: UCB_state where
  "ucb_state2 = \<lparr>ucb_c = 2, ucb_time = 2, ucb_values = Some [Fin 2, Fin 0]\<rparr>"

definition gb_state2 :: GradientBandit_state where
  "gb_state2 = \<lparr>gb_alpha = 1, gb_mean_reward = 0, gb_time = 1,
                 gb_probs = Some [Fin (3 / 4), Fin (1 / 4)]\<rparr>"

section \<open>Bandit: construction and reset\<close>

lemma make_arms_length: "length (fst (make_arms d qs g)) = length qs"
  by (induction qs arbitrary: g) (simp_all add: split_beta)

lemma make_arms_explicit:
  "i < length qs \<Longrightarrow> qs ! i = Some v \<Longrightarrow>
   fst (make_arms d qs g) ! i = \<lparr>arm_q = v, arm_incr_dev = d\<rparr>"
proof (induction qs arbitrary: g i)
  case Nil
  then show ?case by simp
next
  case (Cons x xs)
  show ?case
  proof (cases i)
    case 0
    with Cons.prems show ?thesis
      by (simp add: Arm_init_def split_beta)
  next
    case (Suc j)
    with Cons.prems have "j < length xs" "xs ! j = Some v" by simp_all
    from Cons.IH[OF this] Suc show ?thesis
      by (simp add: split_beta)
  qed
qed

lemma make_arms_all_explicit:
  "make_arms d (map Some ws) g = (map (\<lambda>w. \<lparr>arm_q = w, arm_incr_dev = d\<rparr>) ws, g)"
  by (induction ws) (simp_all add: Arm_init_def)

lemma drift_arms_length: "length (fst (snd (drift_arms as g))) = length as"
  by (induction as arbitrary: g) (simp_all add: split_beta split: sum.splits)

lemma Bandit_action_frame:
  "Bandit_action b i g = (r, b', g') \<Longrightarrow>
   bandit_n b' = bandit_n b \<and> bandit_q b' = bandit_q b \<and>
   bandit_incr_dev b' = bandit_incr_dev b \<and> length (arms b') = length (arms b)"
  using drift_arms_length[of "arms b" g]
  by (auto simp: Bandit_action_def Let_def split: prod.splits option.splits if_splits)

lemma Bandit_actions_frame:
  "Bandit_actions b is g = (rs, b', g') \<Longrightarrow>
   bandit_n b' = bandit_n b \<and> bandit_q b' = bandit_q b \<and>
   bandit_incr_dev b' = bandit_incr_dev b \<and> length (arms b') = length (arms b)"
proof (induction "is" arbitrary: b g rs)
  case Nil
  then show ?case by simp
next
  case (Cons i "is")
  obtain r b1 g1 where a: "Bandit_action b i g = (r, b1, g1)"
    by (cases "Bandit_action b i g") auto
  obtain rs' b2 g2 where r: "Bandit_actions b1 is g1 = (rs', b2, g2)"
    by (cases "Bandit_actions b1 is g1") auto
  from Cons.prems a r have "b2 = b'" "g2 = g'" by simp_all
  with r have "Bandit_actions b1 is g1 = (rs', b', g')" by simp
  from Cons.IH[OF this] Bandit_action_frame[OF a] show ?case by simp
qed


text \<open>
  C7.  Constructing a Bandit raises exactly when an explicit list of per-arm values is
  given whose length differs from the declared number of arms, and the error is then a
  ValueError.  With a matching list the stored specification is the list itself and
  every arm given a value holds exactly that value; a fully explicit list consumes no
  random draw and yields the arms in order.  Without a list construction succeeds with
  \<open>n\<close> arms.
\<close>

theorem Bandit_init_error_iff:
  "((\<exists>e. Bandit_init n q d g = Inl e) \<longleftrightarrow> (\<exists>vs. q = Some vs \<and> length vs \<noteq> n)) \<and>
   (\<forall>e. Bandit_init n q d g = Inl e \<longrightarrow> e = ValueError) \<and>
   (\<forall>vs. q = Some vs \<and> length vs = n \<longrightarrow>
      (\<exists>b g'. Bandit_init n q d g = Inr (b, g') \<and> bandit_n b = n \<and> bandit_q b = vs \<and>
         length (arms b) = n \<and>
         (\<forall>i<n. \<forall>v. vs ! i = Some v \<longrightarrow> arms b ! i = \<lparr>arm_q = v, arm_incr_dev = d\<rparr>))) \<and>
   (\<forall>ws. q = Some (map Some ws) \<and> length ws = n \<longrightarrow>
      Bandit_init n q d g =
        Inr (\<lparr>bandit_n = n, bandit_q = map Some ws, bandit_incr_dev = d,
              arms = map (\<lambda>w. \<lparr>arm_q = w, arm_incr_dev = d\<rparr>) ws\<rparr>, g)) \<and>
   (q = None \<longrightarrow>
      (\<exists>b g'. Bandit_init n q d g = Inr (b, g') \<and> bandit_n b = n \<and> length (arms b) = n))"
proof (intro conjI)
  show "(\<exists>e. Bandit_init n q d g = Inl e) \<longleftrightarrow> (\<exists>vs. q = Some vs \<and> length vs \<noteq> n)"
    by (cases q) (simp_all add: Bandit_init_def Bandit_set_q_def split_beta)
  show "\<forall>e. Bandit_init n q d g = Inl e \<longrightarrow> e = ValueError"
    by (cases q) (simp_all add: Bandit_init_def Bandit_set_q_def split_beta)
  show "\<forall>vs. q = Some vs \<and> length vs = n \<longrightarrow>
      (\<exists>b g'. Bandit_init n q d g = Inr (b, g') \<and> bandit_n b = n \<and> bandit_q b = vs \<and>
         length (arms b) = n \<and>
         (\<forall>i<n. \<forall>v. vs ! i = Some v \<longrightarrow> arms b ! i = \<lparr>arm_q = v, arm_incr_dev = d\<rparr>))"
    by (simp add: Bandit_init_def Bandit_set_q_def split_beta make_arms_length
        make_arms_explicit)
  show "\<forall>ws. q = Some (map Some ws) \<and> length ws = n \<longrightarrow>
      Bandit_init n q d g =
        Inr (\<lparr>bandit_n = n, bandit_q = map Some ws, bandit_incr_dev = d,
              arms = map (\<lambda>w. \<lparr>arm_q = w, arm_incr_dev = d\<rparr>) ws\<rparr>, g)"
    by (simp add: Bandit_init_def Bandit_set_q_def make_arms_all_explicit)
  show "q = None \<longrightarrow>
      (\<exists>b g'. Bandit_init n q d g = Inr (b, g') \<and> bandit_n b = n \<and> length (arms b) = n)"
    by (simp add: Bandit_init_def Bandit_set_q_def split_beta make_arms_length)
qed

theorem Bandit_init_error_iff_witness:
  "Bandit_init 2 (Some [Some 1, Some (- 1)]) 0 g_ones =
     Inr (\<lparr>bandit_n = 2, bandit_q = [Some 1, Some (- 1)], bandit_incr_dev = 0,
           arms = [\<lparr>arm_q = 1, arm_incr_dev = 0\<rparr>, \<lparr>arm_q = - 1, arm_incr_dev = 0\<rparr>]\<rparr>, g_ones) \<and>
   Bandit_init 3 (Some [Some 1, Some (- 1)]) 0 g_ones = Inl ValueError \<and>
   (\<exists>b g'. Bandit_init 2 None 0 g_ones = Inr (b, g') \<and> bandit_n b = 2 \<and> length (arms b) = 2)"
proof (intro conjI)
  show "Bandit_init 2 (Some [Some 1, Some (- 1)]) 0 g_ones =
     Inr (\<lparr>bandit_n = 2, bandit_q = [Some 1, Some (- 1)], bandit_incr_dev = 0,
           arms = [\<lparr>arm_q = 1, arm_incr_dev = 0\<rparr>, \<lparr>arm_q = - 1, arm_incr_dev = 0\<rparr>]\<rparr>, g_ones)"
    using Bandit_init_error_iff[of 2 "Some [Some 1, Some (- 1)]" 0 g_ones,
        THEN conjunct2, THEN conjunct2, THEN conjunct2, THEN conjunct1,
        rule_format, of "[1, - 1]"]
    by simp
  have "\<exists>e. Bandit_init 3 (Some [Some 1, Some (- 1)]) 0 g_ones = Inl e"
    using Bandit_init_error_iff[of 3 "Some [Some 1, Some (- 1)]" 0 g_ones, THEN conjunct1]
    by simp
  then obtain e where e: "Bandit_init 3 (Some [Some 1, Some (- 1)]) 0 g_ones = Inl e" ..
  with Bandit_init_error_iff[of 3 "Some [Some 1, Some (- 1)]" 0 g_ones,
      THEN conjunct2, THEN conjunct1, rule_format, of e]
  show "Bandit_init 3 (Some [Some 1, Some (- 1)]) 0 g_ones = Inl ValueError"
    by simp
  show "\<exists>b g'. Bandit_init 2 None 0 g_ones = Inr (b, g') \<and> bandit_n b = 2 \<and> length (arms b) = 2"
    using Bandit_init_error_iff[of 2 None 0 g_ones,
        THEN conjunct2, THEN conjunct2, THEN conjunct2, THEN conjunct2]
    by simp
qed

text \<open>
  C8.  For a Bandit built from an explicit list of per-arm values, after any sequence of
  \<open>Bandit.action\<close> calls (each drifting the arms in place, whether it returns or raises)
  the stored specification is still the supplied list, and \<open>Bandit.reset\<close> rebuilds the
  arms from it: every arm that was given a value holds exactly that value again, and a
  fully explicit list is restored verbatim.
\<close>

theorem Bandit_reset_restores_explicit:
  assumes init: "Bandit_init n (Some vs) d g = Inr (b, g1)"
    and acts: "Bandit_actions b idxs g1 = (rs, b', g2)"
    and reset: "Bandit_reset b' g2 = (b'', g3)"
  shows "bandit_q b' = vs \<and> bandit_q b'' = vs \<and> length (arms b'') = n \<and>
         (\<forall>i<n. \<forall>v. vs ! i = Some v \<longrightarrow> arms b'' ! i = \<lparr>arm_q = v, arm_incr_dev = d\<rparr>) \<and>
         (\<forall>ws. vs = map Some ws \<longrightarrow> map arm_q (arms b'') = ws)"
proof -
  from init have len: "length vs = n"
    by (simp add: Bandit_init_def Bandit_set_q_def split_beta split: if_splits)
  from init len have b: "bandit_q b = vs" "bandit_incr_dev b = d"
    by (auto simp add: Bandit_init_def Bandit_set_q_def split_beta)
  from Bandit_actions_frame[OF acts] b have b': "bandit_q b' = vs" "bandit_incr_dev b' = d"
    by simp_all
  from reset b' have arms: "arms b'' = fst (make_arms d vs g2)" and q'': "bandit_q b'' = vs"
    by (auto simp add: Bandit_reset_def split_beta)
  have "\<forall>ws. vs = map Some ws \<longrightarrow> map arm_q (arms b'') = ws"
    by (simp add: arms make_arms_all_explicit comp_def)
  with b' q'' arms len show ?thesis
    by (simp add: make_arms_length make_arms_explicit)
qed

lemma Bandit_actions_pm1:
  "Bandit_actions bandit_pm1 [0, 1] g_halves =
     ([Inr 2, Inr (1 / 2)],
      bandit_pm1\<lparr>arms := [\<lparr>arm_q = 2, arm_incr_dev = 1\<rparr>, \<lparr>arm_q = 0, arm_incr_dev = 1\<rparr>]\<rparr>,
      \<lparr>draws = (\<lambda>k. 1 / 2), drawn = 6\<rparr>)"
  by (simp add: bandit_pm1_def g_halves_def Bandit_action_def Arm_reset_q_def
      random_normal_def Arm_action_def next_draw_def)

theorem Bandit_reset_restores_explicit_witness:
  "Bandit_init 2 (Some [Some 1, Some (- 1)]) 1 g_halves = Inr (bandit_pm1, g_halves) \<and>
   map arm_q (arms (fst (snd (Bandit_actions bandit_pm1 [0, 1] g_halves)))) = [2, 0] \<and>
   map arm_q (arms (fst (Bandit_reset (fst (snd (Bandit_actions bandit_pm1 [0, 1] g_halves)))
                           (snd (snd (Bandit_actions bandit_pm1 [0, 1] g_halves)))))) = [1, - 1]"
proof (intro conjI)
  show init: "Bandit_init 2 (Some [Some 1, Some (- 1)]) 1 g_halves = Inr (bandit_pm1, g_halves)"
    by (simp add: Bandit_init_def Bandit_set_q_def Arm_init_def bandit_pm1_def)
  show "map arm_q (arms (fst (snd (Bandit_actions bandit_pm1 [0, 1] g_halves)))) = [2, 0]"
    unfolding Bandit_actions_pm1 by simp
  let ?A = "Bandit_actions bandit_pm1 [0, 1] g_halves"
  let ?R = "Bandit_reset (fst (snd ?A)) (snd (snd ?A))"
  have acts: "?A = (fst ?A, fst (snd ?A), snd (snd ?A))" by simp
  have reset: "?R = (fst ?R, snd ?R)" by simp
  from Bandit_reset_restores_explicit[OF init acts reset]
  have "\<forall>ws. [Some 1, Some (- 1)] = map Some ws \<longrightarrow> map arm_q (arms (fst ?R)) = ws"
    by (elim conjE)
  from this[rule_format, of "[1, - 1]"]
  show "map arm_q (arms (fst ?R)) = [1, - 1]" by simp
qed

section \<open>Benchmark: the running average\<close>

lemma update_avg_rewards_eq:
  "length rs = length avg \<Longrightarrow>
   update_avg_rewards avg epoch rs = Inr (map2 (\<lambda>a r. a + 1 / real epoch * (r - a)) avg rs)"
  by (auto simp: update_avg_rewards_def np_broadcast_def np_inplace_def
      intro!: nth_equalityI)

lemma run_epochs_append:
  "run_epochs (xs @ ys) f avg =
     (case run_epochs xs f avg of Inl e \<Rightarrow> Inl e | Inr a \<Rightarrow> run_epochs ys f a)"
  by (induction xs arbitrary: avg) (auto split: sum.splits)

lemma run_epochs_mean:
  assumes "\<forall>e\<in>{1..n}. length (f e) = m"
  shows "\<exists>avg. run_epochs [1..<Suc n] f (replicate m 0) = Inr avg \<and> length avg = m \<and>
           (\<forall>t<m. real n * avg ! t = (\<Sum>e = 1..n. f e ! t))"
  using assms
proof (induction n)
  case 0
  then show ?case by simp
next
  case (Suc n)
  then obtain avg where avg: "run_epochs [1..<Suc n] f (replicate m 0) = Inr avg"
    "length avg = m" "\<forall>t<m. real n * avg ! t = (\<Sum>e = 1..n. f e ! t)"
    by auto
  from Suc.prems have len: "length (f (Suc n)) = length avg" using avg(2) by simp
  let ?avg' = "map2 (\<lambda>a r. a + 1 / real (Suc n) * (r - a)) avg (f (Suc n))"
  have run: "run_epochs [1..<Suc (Suc n)] f (replicate m 0) = Inr ?avg'"
    using avg(1) update_avg_rewards_eq[OF len, of "Suc n"]
    by (simp add: run_epochs_append)
  have "\<forall>t<m. real (Suc n) * ?avg' ! t = (\<Sum>e = 1..Suc n. f e ! t)"
  proof (intro allI impI)
    fix t assume t: "t < m"
    with avg len have "?avg' ! t = avg ! t + 1 / real (Suc n) * (f (Suc n) ! t - avg ! t)"
      by simp
    then have "real (Suc n) * ?avg' ! t = real n * avg ! t + f (Suc n) ! t"
      by (simp add: field_simps)
    with avg(3) t show "real (Suc n) * ?avg' ! t = (\<Sum>e = 1..Suc n. f e ! t)"
      by simp
  qed
  with run len avg(2) show ?case by simp
qed


text \<open>
  C2.  For every sequence of per-epoch reward arrays, each of length \<open>n_steps\<close>, the
  running average kept by \<open>Benchmark.run\<close> after epochs \<open>1..n\<close> is, at every step
  position, the exact arithmetic mean of the rewards received at that position over all
  \<open>n\<close> epochs: the incremental update computes the true mean, not a moving window.
\<close>

theorem Benchmark_running_average_is_mean:
  assumes "0 < n" and "\<forall>e\<in>{1..n}. length (rewards_of e) = m"
  shows "\<exists>avg. Benchmark_run_avg n m rewards_of = Inr avg \<and> length avg = m \<and>
           (\<forall>t<m. avg ! t = (\<Sum>e = 1..n. rewards_of e ! t) / real n)"
proof -
  from run_epochs_mean[OF assms(2)] obtain avg where
    avg: "run_epochs [1..<Suc n] rewards_of (replicate m 0) = Inr avg" "length avg = m"
      "\<forall>t<m. real n * avg ! t = (\<Sum>e = 1..n. rewards_of e ! t)"
    by blast
  from avg(3) assms(1) have "\<forall>t<m. avg ! t = (\<Sum>e = 1..n. rewards_of e ! t) / real n"
    by (simp add: field_simps)
  with avg(1,2) show ?thesis
    by (simp add: Benchmark_run_avg_def)
qed

theorem Benchmark_running_average_is_mean_witness:
  "Benchmark_run_avg 2 2 (\<lambda>e. [real e, 2 * real e]) = Inr [3 / 2, 3]"
proof -
  have "\<forall>e\<in>{1..2::nat}. length [real e, 2 * real e] = 2" by simp
  from Benchmark_running_average_is_mean[of 2 "\<lambda>e. [real e, 2 * real e]" 2, OF _ this]
  obtain avg where avg: "Benchmark_run_avg 2 2 (\<lambda>e. [real e, 2 * real e]) = Inr avg"
    "length avg = 2" "\<forall>t<2. avg ! t = (\<Sum>e = 1..2. [real e, 2 * real e] ! t) / real 2"
    by auto
  from avg(3)[rule_format, of 0] avg(3)[rule_format, of 1]
  have "avg ! 0 = 3 / 2" "avg ! 1 = 3"
    by (simp_all add: numeral_2_eq_2)
  with avg(2) have "avg = [3 / 2, 3]"
    by (cases avg; cases "tl avg") auto
  with avg(1) show ?thesis by simp
qed

section \<open>GradientBandit\<close>

lemma foldl_fl_add_Fin: "foldl fl_add (Fin a) (map Fin xs) = Fin (a + sum_list xs)"
  by (induction xs arbitrary: a) (simp_all add: add.assoc)

lemma py_sum_Fin: "py_sum (map Fin xs) = Fin (sum_list xs)"
  by (simp add: py_sum_def foldl_fl_add_Fin)

lemma sum_list_exp_pos: "xs \<noteq> [] \<Longrightarrow> 0 < sum_list (map exp (xs :: real list))"
  by (cases xs) (auto intro!: add_pos_nonneg sum_list_nonneg)

lemma sum_list_map_divide:
  "sum_list (map (\<lambda>x. f x / c) xs) = sum_list (map f xs) / (c :: real)"
  by (induction xs) (simp_all add: add_divide_distrib)

lemma derive_probs_Fin:
  "GradientBandit_derive_probs (map Fin q) =
     map Fin (map (\<lambda>x. exp x / sum_list (map exp q)) q)"
proof (cases "q = []")
  case True
  then show ?thesis by (simp add: GradientBandit_derive_probs_def)
next
  case False
  then have nz: "sum_list (map exp q) \<noteq> 0" using sum_list_exp_pos[of q] by simp
  have es: "map fl_exp (map Fin q) = map Fin (map exp q)" by simp
  show ?thesis
    unfolding GradientBandit_derive_probs_def Let_def es py_sum_Fin
    using nz by (simp add: comp_def)
qed

lemma softmax_sums_to_one:
  "q \<noteq> [] \<Longrightarrow> sum_list (map (\<lambda>x. exp x / sum_list (map exp q)) (q :: real list)) = 1"
  using sum_list_exp_pos[of q] by (simp add: sum_list_map_divide)

lemma init_probs_uniform:
  "gb_probs st = None \<Longrightarrow>
   GradientBandit_init_probs st n = map Fin (replicate n (1 / real n))"
  by (cases n) (simp_all add: GradientBandit_init_probs_def)

lemma GradientBandit_estimate_Fin:
  assumes p: "GradientBandit_init_probs st (length q) = map Fin p"
    and len: "length p = length q"
    and a: "a < length q"
    and m: "m = gb_mean_reward st + 1 / real (gb_time st + 1) * (r - gb_mean_reward st)"
    and k: "k = gb_alpha st * (r - m)"
    and q2: "q2 = (map2 (\<lambda>x y. x - k * y) q p)[a := (q ! a - k * p ! a) + k]"
  shows "GradientBandit_estimate_values st (map Fin q) counts a r =
     Inr (st\<lparr>gb_mean_reward := m, gb_time := gb_time st + 1,
             gb_probs := Some (GradientBandit_derive_probs (map Fin q2))\<rparr>, map Fin q2)"
proof -
  have sub: "map2 fl_sub (map Fin q) (map (fl_mul (Fin k)) (map Fin p)) =
        map Fin (map2 (\<lambda>x y. x - k * y) q p)"
    using len by (intro nth_equalityI) (simp_all add: fl_sub_def)
  have step1: "np_inplace fl_sub (map Fin q) (map (fl_mul (Fin k)) (map Fin p)) =
        Inr (map Fin (map2 (\<lambda>x y. x - k * y) q p))"
    using len sub by (simp add: np_inplace_def)
  have upd: "(map Fin (map2 (\<lambda>x y. x - k * y) q p))
               [a := fl_add (map Fin (map2 (\<lambda>x y. x - k * y) q p) ! a) (Fin k)] = map Fin q2"
    using a len by (simp add: q2 map_update)
  have p': "GradientBandit_init_probs st (length (map Fin q)) = map Fin p"
    using p by simp
  have lt: "a < length (map Fin (map2 (\<lambda>x y. x - k * y) q p))"
    using a len by simp
  show ?thesis
    unfolding GradientBandit_estimate_values_def Let_def p' m[symmetric] k[symmetric] step1
    by (simp only: sum.case lt if_True upd)
qed


lemma np_inplace_fl_sub_Fin:
  assumes "np_inplace fl_sub (map Fin q) (map (fl_mul (Fin k)) (map Fin p)) = Inr x"
  shows "\<exists>q1. x = map Fin q1 \<and> length q1 = length q"
proof (cases "length q = length p")
  case True
  then have "map2 fl_sub (map Fin q) (map (fl_mul (Fin k)) (map Fin p)) =
        map Fin (map2 (\<lambda>x y. x - k * y) q p)"
    by (intro nth_equalityI) (simp_all add: fl_sub_def)
  with assms True have "x = map Fin (map2 (\<lambda>x y. x - k * y) q p)"
    by (simp add: np_inplace_def)
  with True show ?thesis
    by (intro exI[of _ "map2 (\<lambda>x y. x - k * y) q p"]) simp
next
  case False
  with assms have one: "length p = 1"
    by (simp add: np_inplace_def split: if_splits)
  then obtain p0 where p0: "p = [p0]" by (cases p) auto
  with assms False have "x = map (\<lambda>y. fl_sub y (Fin (k * p0))) (map Fin q)"
    by (simp add: np_inplace_def)
  then have "x = map Fin (map (\<lambda>y. y - k * p0) q)"
    by (simp add: fl_sub_def)
  then show ?thesis
    by (intro exI[of _ "map (\<lambda>y. y - k * p0) q"]) simp
qed

text \<open>
  C5.  Take a call of \<open>GradientBandit.estimate_values\<close> on a strategy whose stored
  probability vector \<open>self.probs\<close> is \<open>p\<close> (or is not yet created, in which case \<open>p\<close> is the
  uniform vector), with old preferences \<open>q\<close>, chosen index \<open>a\<close> and reward \<open>r\<close>.  The call
  increments the time counter, updates the mean reward \<open>m\<close> by the sample-average rule
  first, and returns \<open>new\<close> with \<open>new[j] = q[j] - alpha (r - m) p[j]\<close> for \<open>j \<noteq> a\<close> and
  \<open>new[a] = q[a] + alpha (r - m) (1 - p[a])\<close>: subtracting the weighted term everywhere
  and adding the full term at the chosen index is the softmax policy-gradient update.
  The strategy is left with the new time and mean and with the softmax of \<open>new\<close>.
\<close>

theorem GradientBandit_update_is_policy_gradient:
  assumes "gb_probs st = Some (map Fin p) \<or>
           (gb_probs st = None \<and> p = replicate (length q) (1 / real (length q)))"
    and "length p = length q"
    and "a < length q"
  shows "\<exists>st' new.
     GradientBandit_estimate_values st (map Fin q) counts a r = Inr (st', map Fin new) \<and>
     st' = st\<lparr>gb_mean_reward :=
                 gb_mean_reward st + 1 / real (gb_time st + 1) * (r - gb_mean_reward st),
               gb_time := gb_time st + 1,
               gb_probs := Some (GradientBandit_derive_probs (map Fin new))\<rparr> \<and>
     gb_time st' = gb_time st + 1 \<and>
     gb_mean_reward st' = gb_mean_reward st + (r - gb_mean_reward st) / real (gb_time st + 1) \<and>
     length new = length q \<and>
     (\<forall>j<length q. new ! j =
        (if j = a then q ! j + gb_alpha st * (r - gb_mean_reward st') * (1 - p ! j)
         else q ! j - gb_alpha st * (r - gb_mean_reward st') * p ! j))"
proof -
  define m where "m = gb_mean_reward st + 1 / real (gb_time st + 1) * (r - gb_mean_reward st)"
  define k where "k = gb_alpha st * (r - m)"
  define q2 where "q2 = (map2 (\<lambda>x y. x - k * y) q p)[a := (q ! a - k * p ! a) + k]"
  let ?st' = "st\<lparr>gb_mean_reward := m, gb_time := gb_time st + 1,
             gb_probs := Some (GradientBandit_derive_probs (map Fin q2))\<rparr>"
  from assms(1) have probs: "GradientBandit_init_probs st (length q) = map Fin p"
  proof
    assume "gb_probs st = Some (map Fin p)"
    then show ?thesis by (simp add: GradientBandit_init_probs_def)
  next
    assume "gb_probs st = None \<and> p = replicate (length q) (1 / real (length q))"
    then show ?thesis using init_probs_uniform[of st "length q"] by simp
  qed
  have run: "GradientBandit_estimate_values st (map Fin q) counts a r = Inr (?st', map Fin q2)"
    by (rule GradientBandit_estimate_Fin[OF probs assms(2,3) m_def k_def q2_def])
  have entries: "\<forall>j<length q. q2 ! j =
        (if j = a then q ! j + gb_alpha st * (r - m) * (1 - p ! j)
         else q ! j - gb_alpha st * (r - m) * p ! j)"
    using assms(2,3) by (simp add: q2_def k_def nth_list_update algebra_simps)
  have "length q2 = length q" using assms(2) by (simp add: q2_def)
  with run entries show ?thesis
    by (intro exI[of _ ?st'] exI[of _ q2]) (simp add: m_def)
qed

theorem GradientBandit_update_is_policy_gradient_witness:
  "GradientBandit_estimate_values gb_state2 [Fin 0, Fin 0] [1, 1] 0 2 =
     Inr (gb_state2\<lparr>gb_mean_reward := 1, gb_time := 2,
            gb_probs := Some (GradientBandit_derive_probs [Fin (1 / 4), Fin (- 1 / 4)])\<rparr>,
          [Fin (1 / 4), Fin (- 1 / 4)]) \<and>
   GradientBandit_estimate_values (GradientBandit_init (1 / 10)) [Fin 0, Fin 3] [1, 0] 0 1 =
     Inr ((GradientBandit_init (1 / 10))\<lparr>gb_mean_reward := 1, gb_time := 1,
            gb_probs := Some (GradientBandit_derive_probs [Fin 0, Fin 3])\<rparr>,
          [Fin 0, Fin 3])"
proof (intro conjI)
  have h1: "gb_probs gb_state2 = Some (map Fin [3 / 4, 1 / 4]) \<or>
      (gb_probs gb_state2 = None \<and>
       [3 / 4, 1 / 4] = replicate (length [0, 0 :: real]) (1 / real (length [0, 0 :: real])))"
    by (simp add: gb_state2_def)
  have h2: "length [3 / 4, 1 / 4 :: real] = length [0, 0 :: real]" by simp
  have h3: "0 < length [0, 0 :: real]" by simp
  from GradientBandit_update_is_policy_gradient[OF h1 h2 h3, of "[1, 1]" 2]
  obtain st' new where
    run: "GradientBandit_estimate_values gb_state2 (map Fin [0, 0]) [1, 1] 0 2 = Inr (st', map Fin new)"
    and st': "st' = gb_state2\<lparr>gb_mean_reward :=
                 gb_mean_reward gb_state2 + 1 / real (gb_time gb_state2 + 1) * (2 - gb_mean_reward gb_state2),
               gb_time := gb_time gb_state2 + 1,
               gb_probs := Some (GradientBandit_derive_probs (map Fin new))\<rparr>"
    and len: "length new = length [0, 0 :: real]"
    and new: "\<forall>j<length [0, 0 :: real]. new ! j =
        (if j = 0 then [0, 0] ! j + gb_alpha gb_state2 * (2 - gb_mean_reward st') * (1 - [3 / 4, 1 / 4] ! j)
         else [0, 0] ! j - gb_alpha gb_state2 * (2 - gb_mean_reward st') * [3 / 4, 1 / 4] ! j)"
    by blast
  from st' have m1: "gb_mean_reward st' = 1" by (simp add: gb_state2_def)
  from new[rule_format, of 0] new[rule_format, of 1] m1
  have "new ! 0 = 1 / 4" "new ! 1 = - 1 / 4" by (simp_all add: gb_state2_def)
  with len have n: "new = [1 / 4, - 1 / 4]"
    by (cases new; cases "tl new") auto
  from run st' n show "GradientBandit_estimate_values gb_state2 [Fin 0, Fin 0] [1, 1] 0 2 =
     Inr (gb_state2\<lparr>gb_mean_reward := 1, gb_time := 2,
            gb_probs := Some (GradientBandit_derive_probs [Fin (1 / 4), Fin (- 1 / 4)])\<rparr>,
          [Fin (1 / 4), Fin (- 1 / 4)])"
    by (simp add: gb_state2_def)
next
  let ?st = "GradientBandit_init (1 / 10)"
  have h1: "gb_probs ?st = Some (map Fin [1 / 2, 1 / 2]) \<or>
      (gb_probs ?st = None \<and>
       [1 / 2, 1 / 2] = replicate (length [0, 3 :: real]) (1 / real (length [0, 3 :: real])))"
    by (simp add: GradientBandit_init_def numeral_2_eq_2)
  have h2: "length [1 / 2, 1 / 2 :: real] = length [0, 3 :: real]" by simp
  have h3: "0 < length [0, 3 :: real]" by simp
  from GradientBandit_update_is_policy_gradient[OF h1 h2 h3, of "[1, 0]" 1]
  obtain st' new where
    run: "GradientBandit_estimate_values ?st (map Fin [0, 3]) [1, 0] 0 1 = Inr (st', map Fin new)"
    and st': "st' = ?st\<lparr>gb_mean_reward :=
                 gb_mean_reward ?st + 1 / real (gb_time ?st + 1) * (1 - gb_mean_reward ?st),
               gb_time := gb_time ?st + 1,
               gb_probs := Some (GradientBandit_derive_probs (map Fin new))\<rparr>"
    and len: "length new = length [0, 3 :: real]"
    and new: "\<forall>j<length [0, 3 :: real]. new ! j =
        (if j = 0 then [0, 3] ! j + gb_alpha ?st * (1 - gb_mean_reward st') * (1 - [1 / 2, 1 / 2] ! j)
         else [0, 3] ! j - gb_alpha ?st * (1 - gb_mean_reward st') * [1 / 2, 1 / 2] ! j)"
    by blast
  from st' have m1: "gb_mean_reward st' = 1" by (simp add: GradientBandit_init_def)
  from new[rule_format, of 0] new[rule_format, of 1] m1
  have "new ! 0 = 0" "new ! 1 = 3" by simp_all
  with len have n: "new = [0, 3]"
    by (cases new; cases "tl new") auto
  from run st' n show "GradientBandit_estimate_values ?st [Fin 0, Fin 3] [1, 0] 0 1 =
     Inr (?st\<lparr>gb_mean_reward := 1, gb_time := 1,
            gb_probs := Some (GradientBandit_derive_probs [Fin 0, Fin 3])\<rparr>,
          [Fin 0, Fin 3])"
    by (simp add: GradientBandit_init_def)
qed

text \<open>
  C6.  After every call of \<open>GradientBandit.estimate_values\<close> that returns, on any finite
  preference vector, the probability vector held by the strategy is a softmax of the new
  preferences: its entries are positive reals and their sum, as Python's \<open>sum\<close> computes
  it in exact arithmetic, is 1.
\<close>

theorem GradientBandit_probs_sum_to_one:
  assumes "GradientBandit_estimate_values st (map Fin q) counts a r = Inr (st', prefs')"
    and "GradientBandit_init_probs st (length q) = map Fin p"
  shows "\<exists>ps. gb_probs st' = Some (map Fin ps) \<and> sum_list ps = 1 \<and>
           py_sum (map Fin ps) = Fin 1 \<and> (\<forall>x\<in>set ps. 0 < x) \<and> length ps = length q"
proof -
  define m where "m = gb_mean_reward st + 1 / real (gb_time st + 1) * (r - gb_mean_reward st)"
  define k where "k = gb_alpha st * (r - m)"
  have p': "GradientBandit_init_probs st (length (map Fin q)) = map Fin p"
    using assms(2) by simp
  from assms(1) obtain prefs1 where
    step1: "np_inplace fl_sub (map Fin q) (map (fl_mul (Fin k)) (map Fin p)) = Inr prefs1"
    and a: "a < length prefs1"
    and st': "gb_probs st' = Some (GradientBandit_derive_probs (prefs1[a := fl_add (prefs1 ! a) (Fin k)]))"
    unfolding GradientBandit_estimate_values_def Let_def p' m_def[symmetric] k_def[symmetric]
    by (auto split: sum.splits if_splits)
  from np_inplace_fl_sub_Fin[OF step1] obtain q1 where
    q1: "prefs1 = map Fin q1" "length q1 = length q" by blast
  define q2 where "q2 = q1[a := q1 ! a + k]"
  from q1 a have "prefs1[a := fl_add (prefs1 ! a) (Fin k)] = map Fin q2"
    by (simp add: q2_def map_update)
  with st' have probs: "gb_probs st' =
      Some (map Fin (map (\<lambda>x. exp x / sum_list (map exp q2)) q2))"
    by (simp only: derive_probs_Fin)
  from q1 a have ne: "q2 \<noteq> []" by (auto simp: q2_def)
  let ?ps = "map (\<lambda>x. exp x / sum_list (map exp q2)) q2"
  have s1: "sum_list ?ps = 1" by (rule softmax_sums_to_one[OF ne])
  have s2: "py_sum (map Fin ?ps) = Fin 1" unfolding py_sum_Fin s1 ..
  have pos: "\<forall>x\<in>set ?ps. 0 < x"
    using sum_list_exp_pos[OF ne] by auto
  have len: "length ?ps = length q" using q1 by (simp add: q2_def)
  from probs s1 s2 pos len show ?thesis by blast
qed

theorem GradientBandit_probs_sum_to_one_witness:
  "\<exists>st' prefs' ps.
     GradientBandit_estimate_values (GradientBandit_init (1 / 10)) [Fin 0, Fin 3] [1, 0] 0 1 =
       Inr (st', prefs') \<and>
     gb_probs st' = Some (map Fin ps) \<and> sum_list ps = 1 \<and> length ps = 2"
proof -
  let ?st = "GradientBandit_init (1 / 10)"
  have p: "GradientBandit_init_probs ?st (length [0, 3 :: real]) = map Fin [1 / 2, 1 / 2]"
    by (simp add: GradientBandit_init_probs_def GradientBandit_init_def numeral_2_eq_2)
  have run: "GradientBandit_estimate_values ?st (map Fin [0, 3]) [1, 0] 0 1 =
        Inr (?st\<lparr>gb_mean_reward := 1, gb_time := 1,
                 gb_probs := Some (GradientBandit_derive_probs [Fin 0, Fin 3])\<rparr>, [Fin 0, Fin 3])"
    by (simp add: GradientBandit_estimate_values_def GradientBandit_init_probs_def
        GradientBandit_init_def np_inplace_def fl_sub_def numeral_2_eq_2 Let_def)
  from GradientBandit_probs_sum_to_one[OF run p] run show ?thesis
    by auto
qed

section \<open>UCB\<close>

lemma argmax_scan_PInf:
  "\<forall>x\<in>set xs. x \<noteq> NaN \<Longrightarrow> argmax_scan PInf mi i xs = mi"
proof (induction xs arbitrary: i)
  case Nil
  then show ?case by simp
next
  case (Cons x xs)
  then have "fl_le x PInf" by (cases x) auto
  with Cons show ?case by simp
qed

lemma argmax_scan_finds_PInf:
  assumes "\<forall>x\<in>set xs. x \<noteq> NaN" and "mp \<noteq> NaN" and "mp \<noteq> PInf" and "PInf \<in> set xs"
  shows "i \<le> argmax_scan mp mi i xs \<and> argmax_scan mp mi i xs < i + length xs \<and>
         xs ! (argmax_scan mp mi i xs - i) = PInf"
  using assms
proof (induction xs arbitrary: mp mi i)
  case Nil
  then show ?case by simp
next
  case (Cons x xs)
  show ?case
  proof (cases "x = PInf")
    case True
    with Cons.prems have "\<not> fl_le x mp" by (cases mp) auto
    with True Cons.prems show ?thesis
      by (simp add: argmax_scan_PInf)
  next
    case False
    with Cons.prems have in_xs: "PInf \<in> set xs" and nn: "\<forall>y\<in>set xs. y \<noteq> NaN" and x: "x \<noteq> NaN"
      by auto
    show ?thesis
    proof (cases "fl_le x mp")
      case True
      from Cons.IH[OF nn Cons.prems(2,3) in_xs, of "Suc i" mi] True Cons.prems(2)
      show ?thesis by (auto simp: Suc_diff_le)
    next
      case le: False
      from Cons.IH[OF nn x False in_xs, of "Suc i" i] le Cons.prems(2)
      show ?thesis by (auto simp: Suc_diff_le)
    qed
  qed
qed

lemma np_argmax_finds_PInf:
  assumes "\<forall>x\<in>set xs. x \<noteq> NaN" and "PInf \<in> set xs"
  shows "\<exists>j. np_argmax xs = Inr j \<and> j < length xs \<and> xs ! j = PInf"
proof (cases xs)
  case Nil
  with assms show ?thesis by simp
next
  case (Cons x ys)
  show ?thesis
  proof (cases "x = PInf")
    case True
    with Cons assms show ?thesis by (simp add: argmax_scan_PInf)
  next
    case False
    with Cons assms have "\<forall>y\<in>set ys. y \<noteq> NaN" "x \<noteq> NaN" "PInf \<in> set ys" by auto
    from argmax_scan_finds_PInf[OF this(1,2) False this(3), of 1 0] Cons
    show ?thesis by (auto simp: nth_Cons')
  qed
qed


lemma UCB_estimate_Fin:
  assumes vs: "UCB_init_values st (length prefs) = map Fin v"
    and len: "length v = length counts"
    and a: "a < length counts"
    and cnt: "0 < counts ! a"
    and v': "v' = v[a := v ! a + 1 / real (counts ! a) * (r - v ! a)]"
  shows "UCB_estimate_values st prefs counts a r =
     Inr (st\<lparr>ucb_time := ucb_time st + 1, ucb_values := Some (map Fin v')\<rparr>,
          map2 fl_add (map Fin v')
            (map (\<lambda>n. fl_mul (Fin (ucb_c st))
                         (fl_sqrt (fl_div (Fin (ln (real (ucb_time st + 1)))) (Fin (real n)))))
               counts))"
proof -
  have log: "np_log (ucb_time st + 1) = Fin (ln (real (ucb_time st + 1)))"
    by (simp add: np_log_def)
  have upd: "(map Fin v)[a := fl_add (map Fin v ! a)
                 (fl_mul (fl_div (Fin 1) (Fin (real (counts ! a))))
                    (fl_sub (Fin r) (map Fin v ! a)))] = map Fin v'"
    using a len cnt by (simp add: v' map_update fl_sub_def)
  have lt: "a < length (map Fin v) \<and> a < length counts"
    using a len by simp
  have bc: "np_broadcast fl_add (map Fin v') bonus = Inr (map2 fl_add (map Fin v') bonus)"
    if "length bonus = length counts" for bonus
    using that len by (simp add: np_broadcast_def v')
  show ?thesis
    unfolding UCB_estimate_values_def Let_def vs log upd
    by (simp only: bc length_map sum.case a len if_True simp_thms)
qed

lemma frac_not_neg: "\<not> frac (u :: real) < 0"
  by (simp add: not_less)

lemma get_arms_id_greedy:
  "eps p = 0 \<Longrightarrow> np_argmax (preferences p) = Inr j \<Longrightarrow>
   get_arms_id p g = Inr (j, snd (next_draw g))"
  by (simp add: get_arms_id_def random_binomial1_def split_beta frac_not_neg)

lemma UCB_estimate_values_from_values:
  assumes "UCB_init_values st (length prefs) = map Fin v"
    and "length v = length counts"
    and "a < length counts"
    and "1 \<le> counts ! a"
  shows "\<exists>v' out.
     UCB_estimate_values st prefs counts a r =
       Inr (st\<lparr>ucb_time := ucb_time st + 1, ucb_values := Some (map Fin v')\<rparr>, out) \<and>
     v' = v[a := v ! a + 1 / real (counts ! a) * (r - v ! a)] \<and>
     length out = length counts \<and>
     (\<forall>i<length counts. out ! i =
        fl_add (Fin (v' ! i))
          (fl_mul (Fin (ucb_c st))
             (fl_sqrt (fl_div (np_log (ucb_time st + 1)) (Fin (real (counts ! i))))))) \<and>
     (\<forall>i<length counts. 0 < counts ! i \<longrightarrow> out ! i =
        Fin (v' ! i + ucb_c st * sqrt (ln (real (ucb_time st + 1)) / real (counts ! i)))) \<and>
     (0 < ucb_c st \<and> 1 \<le> ucb_time st \<longrightarrow>
        (\<forall>i<length counts. counts ! i = 0 \<longrightarrow> out ! i = PInf) \<and>
        ((\<exists>i<length counts. counts ! i = 0) \<longrightarrow>
           (\<exists>j. np_argmax out = Inr j \<and> j < length counts \<and> counts ! j = 0 \<and> out ! j = PInf) \<and>
           (\<forall>p g. preferences p = out \<and> eps p = 0 \<longrightarrow>
              (\<exists>j g'. get_arms_id p g = Inr (j, g') \<and> j < length counts \<and> counts ! j = 0))))"
proof -
  define v' where "v' = v[a := v ! a + 1 / real (counts ! a) * (r - v ! a)]"
  define bonus where "bonus = map (\<lambda>n. fl_mul (Fin (ucb_c st))
       (fl_sqrt (fl_div (Fin (ln (real (ucb_time st + 1)))) (Fin (real n))))) counts"
  define out where "out = map2 fl_add (map Fin v') bonus"
  from assms(4) have cnt: "0 < counts ! a" by simp
  have run: "UCB_estimate_values st prefs counts a r =
       Inr (st\<lparr>ucb_time := ucb_time st + 1, ucb_values := Some (map Fin v')\<rparr>, out)"
    unfolding out_def bonus_def
    by (rule UCB_estimate_Fin[OF assms(1,2,3) cnt v'_def])
  have lenv: "length v' = length counts" using assms(2) by (simp add: v'_def)
  then have leno: "length out = length counts" by (simp add: out_def bonus_def)
  have log: "np_log (ucb_time st + 1) = Fin (ln (real (ucb_time st + 1)))"
    by (simp add: np_log_def)
  have entry: "out ! i = fl_add (Fin (v' ! i)) (fl_mul (Fin (ucb_c st))
          (fl_sqrt (fl_div (np_log (ucb_time st + 1)) (Fin (real (counts ! i))))))"
    if "i < length counts" for i
    using that lenv unfolding log by (simp add: out_def bonus_def)
  have tried: "out ! i = Fin (v' ! i + ucb_c st * sqrt (ln (real (ucb_time st + 1)) / real (counts ! i)))"
    if "i < length counts" "0 < counts ! i" for i
    unfolding entry[OF that(1)] log using that(2) by simp
  have untried: "out ! i = PInf"
    if "0 < ucb_c st" "1 \<le> ucb_time st" "i < length counts" "counts ! i = 0" for i
    unfolding entry[OF that(3)] log using that(1,2,4) by simp
  have pick: "\<exists>j. np_argmax out = Inr j \<and> j < length counts \<and> counts ! j = 0 \<and> out ! j = PInf"
    if c: "0 < ucb_c st" and t: "1 \<le> ucb_time st" and ex: "\<exists>i<length counts. counts ! i = 0"
  proof -
    have nonan: "\<forall>x\<in>set out. x \<noteq> NaN"
    proof
      fix x assume "x \<in> set out"
      then obtain i where i: "i < length out" "x = out ! i" by (auto simp: in_set_conv_nth)
      show "x \<noteq> NaN"
      proof (cases "counts ! i = 0")
        case True
        with untried[OF c t] i leno show ?thesis by simp
      next
        case False
        with tried[of i] i leno show ?thesis by simp
      qed
    qed
    from ex obtain i where "i < length counts" "counts ! i = 0" by blast
    with untried[OF c t] leno have "PInf \<in> set out" by (auto simp: in_set_conv_nth)
    from np_argmax_finds_PInf[OF nonan this] obtain j where
      j: "np_argmax out = Inr j" "j < length out" "out ! j = PInf" by blast
    have "counts ! j = 0"
    proof (rule ccontr)
      assume "counts ! j \<noteq> 0"
      with tried[of j] j leno show False by simp
    qed
    with j leno show ?thesis by auto
  qed
  have greedy: "\<exists>j g'. get_arms_id p g = Inr (j, g') \<and> j < length counts \<and> counts ! j = 0"
    if "0 < ucb_c st" "1 \<le> ucb_time st" "\<exists>i<length counts. counts ! i = 0"
      "preferences p = out" "eps p = 0" for p g
  proof -
    from pick[OF that(1,2,3)] obtain j where
      j: "np_argmax out = Inr j" "j < length counts" "counts ! j = 0" by blast
    with that(4) have "np_argmax (preferences p) = Inr j" by simp
    from get_arms_id_greedy[OF that(5) this] j show ?thesis by blast
  qed
  show ?thesis
  proof (intro exI[of _ v'] exI[of _ out] conjI allI impI)
    show "UCB_estimate_values st prefs counts a r =
       Inr (st\<lparr>ucb_time := ucb_time st + 1, ucb_values := Some (map Fin v')\<rparr>, out)"
      by (rule run)
    show "v' = v[a := v ! a + 1 / real (counts ! a) * (r - v ! a)]" by (rule v'_def)
    show "length out = length counts" by (rule leno)
  qed (use entry tried untried pick greedy in blast)+
qed


text \<open>
  C3.  Take a call of \<open>UCB.estimate_values\<close> whose chosen arm has an action count of at
  least 1, on a strategy whose stored value array \<open>self.values\<close> is finite and as long as
  the action counts (or not yet created, in which case it is created as zeros of the
  length of the preferences).  The call increments the time counter before the update,
  replaces the stored value of the chosen arm by its sample-average update and keeps the
  other stored values, and returns \<open>value[i] + c * sqrt (ln time / count[i])\<close> for every
  arm, computed from the updated values and the incremented time.  For a positive \<open>c\<close>,
  the documented precondition on the parameter, every arm with count 0 gets the
  preference \<open>+inf\<close> while every tried arm gets a finite one, so \<open>np.argmax\<close>, and with
  it the exploitation branch of \<open>get_arms_id\<close>, selects an untried arm whenever there is
  one.
\<close>

theorem UCB_estimate_values_bonus:
  assumes "ucb_values st = Some (map Fin v) \<or>
           (ucb_values st = None \<and> v = replicate (length prefs) 0)"
    and "length v = length counts"
    and "a < length counts"
    and "1 \<le> counts ! a"
  shows "\<exists>v' out.
     UCB_estimate_values st prefs counts a r =
       Inr (st\<lparr>ucb_time := ucb_time st + 1, ucb_values := Some (map Fin v')\<rparr>, out) \<and>
     v' = v[a := v ! a + 1 / real (counts ! a) * (r - v ! a)] \<and>
     length out = length counts \<and>
     (\<forall>i<length counts. out ! i =
        fl_add (Fin (v' ! i))
          (fl_mul (Fin (ucb_c st))
             (fl_sqrt (fl_div (np_log (ucb_time st + 1)) (Fin (real (counts ! i))))))) \<and>
     (\<forall>i<length counts. 0 < counts ! i \<longrightarrow> out ! i =
        Fin (v' ! i + ucb_c st * sqrt (ln (real (ucb_time st + 1)) / real (counts ! i)))) \<and>
     (0 < ucb_c st \<and> 1 \<le> ucb_time st \<longrightarrow>
        (\<forall>i<length counts. counts ! i = 0 \<longrightarrow> out ! i = PInf) \<and>
        ((\<exists>i<length counts. counts ! i = 0) \<longrightarrow>
           (\<exists>j. np_argmax out = Inr j \<and> j < length counts \<and> counts ! j = 0 \<and> out ! j = PInf) \<and>
           (\<forall>p g. preferences p = out \<and> eps p = 0 \<longrightarrow>
              (\<exists>j g'. get_arms_id p g = Inr (j, g') \<and> j < length counts \<and> counts ! j = 0))))"
proof -
  from assms(1) have "UCB_init_values st (length prefs) = map Fin v"
    by (auto simp: UCB_init_values_def)
  from UCB_estimate_values_from_values[OF this assms(2,3,4)] show ?thesis .
qed

theorem UCB_estimate_values_bonus_witness:
  "UCB_estimate_values (UCB_init 2) [Fin 0, Fin 0] [1, 0] 0 2 =
     Inr (\<lparr>ucb_c = 2, ucb_time = 2, ucb_values = Some [Fin 2, Fin 0]\<rparr>,
          [Fin (2 + 2 * sqrt (ln 2)), PInf]) \<and>
   np_argmax [Fin (2 + 2 * sqrt (ln 2)), PInf] = Inr 1 \<and>
   UCB_estimate_values ucb_state2 [Fin 7, PInf] [2, 0] 0 4 =
     Inr (\<lparr>ucb_c = 2, ucb_time = 3, ucb_values = Some [Fin 3, Fin 0]\<rparr>,
          [Fin (3 + 2 * sqrt (ln 3 / 2)), PInf])"
proof (intro conjI)
  let ?st = "UCB_init 2"
  have h1: "ucb_values ?st = Some (map Fin [0, 0]) \<or>
      (ucb_values ?st = None \<and> [0, 0] = replicate (length [Fin 0, Fin 0]) (0 :: real))"
    by (simp add: UCB_init_def numeral_2_eq_2)
  have h2: "length [0, 0 :: real] = length [1, 0 :: nat]" by simp
  have h3: "0 < length [1, 0 :: nat]" by simp
  have h4: "1 \<le> [1, 0 :: nat] ! 0" by simp
  from UCB_estimate_values_bonus[OF h1 h2 h3 h4, of 2]
  obtain v' out where
    run: "UCB_estimate_values ?st [Fin 0, Fin 0] [1, 0] 0 2 =
       Inr (?st\<lparr>ucb_time := ucb_time ?st + 1, ucb_values := Some (map Fin v')\<rparr>, out)"
    and v': "v' = [0, 0][0 := [0, 0] ! 0 + 1 / real ([1, 0] ! 0) * (2 - [0, 0] ! 0)]"
    and len: "length out = length [1, 0 :: nat]"
    and tried: "\<forall>i<length [1, 0 :: nat]. 0 < [1, 0 :: nat] ! i \<longrightarrow> out ! i =
        Fin (v' ! i + ucb_c ?st * sqrt (ln (real (ucb_time ?st + 1)) / real ([1, 0 :: nat] ! i)))"
    and rest: "0 < ucb_c ?st \<and> 1 \<le> ucb_time ?st \<longrightarrow>
        (\<forall>i<length [1, 0 :: nat]. [1, 0 :: nat] ! i = 0 \<longrightarrow> out ! i = PInf) \<and>
        ((\<exists>i<length [1, 0 :: nat]. [1, 0 :: nat] ! i = 0) \<longrightarrow>
           (\<exists>j. np_argmax out = Inr j \<and> j < length [1, 0 :: nat] \<and> [1, 0 :: nat] ! j = 0 \<and> out ! j = PInf) \<and>
           (\<forall>p g. preferences p = out \<and> eps p = 0 \<longrightarrow>
              (\<exists>j g'. get_arms_id p g = Inr (j, g') \<and> j < length [1, 0 :: nat] \<and> [1, 0 :: nat] ! j = 0)))"
    by blast
  from v' have v2: "v' = [2, 0]" by simp
  from tried[rule_format, of 0] v2 have o0: "out ! 0 = Fin (2 + 2 * sqrt (ln 2))"
    by (simp add: UCB_init_def)
  have pre: "0 < ucb_c ?st \<and> 1 \<le> ucb_time ?st" by (simp add: UCB_init_def)
  from rest[rule_format, OF pre] have "\<forall>i<length [1, 0 :: nat]. [1, 0 :: nat] ! i = 0 \<longrightarrow> out ! i = PInf"
    by blast
  from this[rule_format, of 1] have o1: "out ! 1 = PInf" by simp
  from len o0 o1 have out: "out = [Fin (2 + 2 * sqrt (ln 2)), PInf]"
    by (cases out; cases "tl out") auto
  have ex: "\<exists>i<length [1, 0 :: nat]. [1, 0 :: nat] ! i = 0"
    by (intro exI[of _ 1]) simp
  from rest[rule_format, OF pre] ex obtain j where
    j: "np_argmax out = Inr j" "j < length [1, 0 :: nat]" "[1, 0 :: nat] ! j = 0"
    by blast
  from j(2,3) have j1: "j = 1" by (cases j) auto
  from out run v2 show "UCB_estimate_values (UCB_init 2) [Fin 0, Fin 0] [1, 0] 0 2 =
     Inr (\<lparr>ucb_c = 2, ucb_time = 2, ucb_values = Some [Fin 2, Fin 0]\<rparr>,
          [Fin (2 + 2 * sqrt (ln 2)), PInf])"
    by (simp add: UCB_init_def)
  from j(1) j1 out show "np_argmax [Fin (2 + 2 * sqrt (ln 2)), PInf] = Inr 1"
    by simp
next
  have h1: "ucb_values ucb_state2 = Some (map Fin [2, 0]) \<or>
      (ucb_values ucb_state2 = None \<and> [2, 0] = replicate (length [Fin 7, PInf]) (0 :: real))"
    by (simp add: ucb_state2_def)
  have h2: "length [2, 0 :: real] = length [2, 0 :: nat]" by simp
  have h3: "0 < length [2, 0 :: nat]" by simp
  have h4: "1 \<le> [2, 0 :: nat] ! 0" by simp
  from UCB_estimate_values_bonus[OF h1 h2 h3 h4, of 4]
  obtain v' out where
    run: "UCB_estimate_values ucb_state2 [Fin 7, PInf] [2, 0] 0 4 =
       Inr (ucb_state2\<lparr>ucb_time := ucb_time ucb_state2 + 1, ucb_values := Some (map Fin v')\<rparr>, out)"
    and v': "v' = [2, 0][0 := [2, 0] ! 0 + 1 / real ([2, 0] ! 0) * (4 - [2, 0] ! 0)]"
    and len: "length out = length [2, 0 :: nat]"
    and tried: "\<forall>i<length [2, 0 :: nat]. 0 < [2, 0 :: nat] ! i \<longrightarrow> out ! i =
        Fin (v' ! i + ucb_c ucb_state2 * sqrt (ln (real (ucb_time ucb_state2 + 1)) / real ([2, 0 :: nat] ! i)))"
    and rest: "0 < ucb_c ucb_state2 \<and> 1 \<le> ucb_time ucb_state2 \<longrightarrow>
        (\<forall>i<length [2, 0 :: nat]. [2, 0 :: nat] ! i = 0 \<longrightarrow> out ! i = PInf) \<and>
        ((\<exists>i<length [2, 0 :: nat]. [2, 0 :: nat] ! i = 0) \<longrightarrow>
           (\<exists>j. np_argmax out = Inr j \<and> j < length [2, 0 :: nat] \<and> [2, 0 :: nat] ! j = 0 \<and> out ! j = PInf) \<and>
           (\<forall>p g. preferences p = out \<and> eps p = 0 \<longrightarrow>
              (\<exists>j g'. get_arms_id p g = Inr (j, g') \<and> j < length [2, 0 :: nat] \<and> [2, 0 :: nat] ! j = 0)))"
    by blast
  from v' have v2: "v' = [3, 0]" by simp
  from tried[rule_format, of 0] v2 have o0: "out ! 0 = Fin (3 + 2 * sqrt (ln 3 / 2))"
    by (simp add: ucb_state2_def)
  have pre: "0 < ucb_c ucb_state2 \<and> 1 \<le> ucb_time ucb_state2" by (simp add: ucb_state2_def)
  from rest[rule_format, OF pre] have "\<forall>i<length [2, 0 :: nat]. [2, 0 :: nat] ! i = 0 \<longrightarrow> out ! i = PInf"
    by blast
  from this[rule_format, of 1] have o1: "out ! 1 = PInf" by simp
  from len o0 o1 have out: "out = [Fin (3 + 2 * sqrt (ln 3 / 2)), PInf]"
    by (cases out; cases "tl out") auto
  from out run v2 show "UCB_estimate_values ucb_state2 [Fin 7, PInf] [2, 0] 0 4 =
     Inr (\<lparr>ucb_c = 2, ucb_time = 3, ucb_values = Some [Fin 3, Fin 0]\<rparr>,
          [Fin (3 + 2 * sqrt (ln 3 / 2)), PInf])"
    by (simp add: ucb_state2_def)
qed

section \<open>BanditPlayer with UCB\<close>

lemma use_arm_set_preferences:
  assumes "strategy p = UCB st" and "length prefs2 = length (preferences p)"
  shows "use_arm (p\<lparr>preferences := prefs2\<rparr>) a g = use_arm p a g"
proof -
  have "UCB_estimate_values st prefs2 counts a r =
        UCB_estimate_values st (preferences p) counts a r" for counts r
    using assms(2) by (simp add: UCB_estimate_values_def)
  with assms(1) show ?thesis
    by (simp add: use_arm_def use_arm_call_def split_beta Let_def
        split: sum.splits prod.splits)
qed


lemma use_arms_set_preferences:
  assumes "strategy p = UCB st" and "length prefs2 = length (preferences p)" and "idxs \<noteq> []"
  shows "use_arms (p\<lparr>preferences := prefs2\<rparr>) idxs g = use_arms p idxs g"
  using assms by (cases idxs) (simp_all add: use_arm_set_preferences)

lemma use_arm_set_optimist:
  "use_arm (p\<lparr>optimist := opt\<rparr>) a g =
     (case use_arm p a g of
        Inl e \<Rightarrow> Inl e
      | Inr (r, p', g') \<Rightarrow> Inr (r, p'\<lparr>optimist := opt\<rparr>, g'))"
  by (simp add: use_arm_def use_arm_call_def split_beta Let_def split: sum.splits)

lemma get_arms_id_set_optimist:
  "get_arms_id (p\<lparr>optimist := opt\<rparr>) g = get_arms_id p g"
  by (simp add: get_arms_id_def cong: sum.case_cong prod.case_cong if_cong)

lemma run_steps_set_optimist:
  "run_steps steps (p\<lparr>optimist := opt\<rparr>) g =
     (case run_steps steps p g of
        Inl e \<Rightarrow> Inl e
      | Inr (p', g') \<Rightarrow> Inr (p'\<lparr>optimist := opt\<rparr>, g'))"
proof (induction steps arbitrary: p g)
  case Nil
  then show ?case by simp
next
  case (Cons step steps)
  show ?case
  proof (cases "get_arms_id p g")
    case (Inl e)
    then show ?thesis by (simp add: get_arms_id_set_optimist)
  next
    case (Inr ig)
    obtain indx g1 where ig: "ig = (indx, g1)" by (cases ig)
    show ?thesis
    proof (cases "use_arm p indx g1")
      case (Inl e)
      with Inr ig show ?thesis
        by (simp add: get_arms_id_set_optimist use_arm_set_optimist)
    next
      case use: (Inr res)
      obtain r p1 g2 where res: "res = (r, p1, g2)" by (cases res)
      have comm: "p1\<lparr>optimist := opt, rewards := rs\<rparr> = p1\<lparr>rewards := rs, optimist := opt\<rparr>"
        for rs by simp
      from Inr ig use res show ?thesis
        by (simp add: get_arms_id_set_optimist use_arm_set_optimist comm Cons.IH)
    qed
  qed
qed

lemma argmax_scan_constant:
  "argmax_scan (Fin x) mi i (replicate k (Fin x)) = mi"
  by (induction k arbitrary: i) simp_all

lemma np_argmax_constant:
  "np_argmax (replicate n (Fin x)) = (if n = 0 then Inl ValueError else Inr 0)"
  by (cases n) (simp_all add: argmax_scan_constant)

lemma initial_preferences_const:
  "initial_preferences opt bl n = replicate n (Fin (if opt then bl else 0))"
  by (simp add: initial_preferences_def)

lemma BanditPlayer_init_optimist:
  "BanditPlayer_init b e ns s True bl nm =
   (BanditPlayer_init b e ns s False bl nm)
     \<lparr>preferences := initial_preferences True bl (bandit_n b), optimist := True\<rparr>"
  by (simp add: BanditPlayer_init_def)


lemma run_steps_initial_UCB:
  assumes "steps \<noteq> []"
  shows "run_steps steps (BanditPlayer_init b e ns (UCB st) True bl nm) g =
     (case run_steps steps (BanditPlayer_init b e ns (UCB st) False bl nm) g of
        Inl err \<Rightarrow> Inl err
      | Inr (p', g') \<Rightarrow> Inr (p'\<lparr>optimist := True\<rparr>, g'))"
proof -
  let ?P = "BanditPlayer_init b e ns (UCB st) False bl nm"
  let ?ip = "initial_preferences True bl (bandit_n b)"
  from assms obtain step rest where steps: "steps = step # rest" by (cases steps) auto
  have strat: "strategy ?P = UCB st" by (simp add: BanditPlayer_init_def)
  have len: "length ?ip = length (preferences ?P)"
    by (simp add: BanditPlayer_init_def initial_preferences_const)
  have ids: "get_arms_id (?P\<lparr>preferences := ?ip\<rparr>) g = get_arms_id ?P g"
    by (simp add: get_arms_id_def BanditPlayer_init_def initial_preferences_const
        np_argmax_constant cong: sum.case_cong prod.case_cong if_cong)
  have "run_steps steps (?P\<lparr>preferences := ?ip\<rparr>) g = run_steps steps ?P g"
    unfolding steps run_steps.simps ids
    by (simp only: use_arm_set_preferences[OF strat len])
  then show ?thesis
    by (simp only: BanditPlayer_init_optimist run_steps_set_optimist)
qed

lemma run_player_ucb:
  "BanditPlayer_run player_ucb g_ones = Inr (player_ucb_after, g_ones\<lparr>drawn := 2\<rparr>)"
  by (simp add: BanditPlayer_run_def player_ucb_def player_ucb_after_def BanditPlayer_init_def
      initial_preferences_def get_arms_id_def random_binomial1_def next_draw_def g_ones_def
      use_arm_def use_arm_call_def Bandit_action_def bandit_fixed_def Arm_reset_q_def
      Arm_action_def UCB_estimate_values_def UCB_init_values_def UCB_init_def np_log_def
      np_broadcast_def fl_sub_def numeral_2_eq_2)

text \<open>
  C10.  The result of \<open>UCB.estimate_values\<close> depends on the incoming preference vector
  through its length only.  Hence for a player using UCB a step \<open>use_arm\<close> ends in the
  same state whatever values its preference vector held before, so after the first step
  the vector is the UCB output and the earlier values never matter again; in particular a
  run of at least one step from an optimistic start equals the run from a plain start.
\<close>

theorem UCB_ignores_preference_values:
  assumes "length prefs2 = length prefs1"
  shows "UCB_estimate_values st prefs2 counts a r = UCB_estimate_values st prefs1 counts a r \<and>
     (\<forall>(p :: BanditPlayer) g. strategy p = UCB st \<and> preferences p = prefs1 \<longrightarrow>
        use_arm (p\<lparr>preferences := prefs2\<rparr>) a g = use_arm p a g \<and>
        (\<forall>idxs :: nat list. idxs \<noteq> [] \<longrightarrow>
           use_arms (p\<lparr>preferences := prefs2\<rparr>) idxs g = use_arms p idxs g)) \<and>
     (\<forall>b e ns bl nm g. 0 < ns \<longrightarrow>
        BanditPlayer_run (BanditPlayer_init b e ns (UCB st) True bl nm) g =
          (case BanditPlayer_run (BanditPlayer_init b e ns (UCB st) False bl nm) g of
             Inl err \<Rightarrow> Inl err
           | Inr (p', g') \<Rightarrow> Inr (p'\<lparr>optimist := True\<rparr>, g')))"
proof (intro conjI allI impI)
  show "UCB_estimate_values st prefs2 counts a r = UCB_estimate_values st prefs1 counts a r"
    using assms by (simp add: UCB_estimate_values_def)
next
  fix p :: BanditPlayer and g assume "strategy p = UCB st \<and> preferences p = prefs1"
  with assms show "use_arm (p\<lparr>preferences := prefs2\<rparr>) a g = use_arm p a g"
    by (simp add: use_arm_set_preferences)
next
  fix p :: BanditPlayer and g and idxs :: "nat list" assume "strategy p = UCB st \<and> preferences p = prefs1" and "idxs \<noteq> []"
  with assms show "use_arms (p\<lparr>preferences := prefs2\<rparr>) idxs g = use_arms p idxs g"
    by (simp add: use_arms_set_preferences)
next
  fix b e ns bl nm g assume "0 < (ns :: nat)"
  then have ne: "[0..<ns] \<noteq> []" by simp
  have ns: "n_steps (BanditPlayer_init b e ns (UCB st) opt bl nm) = ns" for opt
    by (simp add: BanditPlayer_init_def)
  show "BanditPlayer_run (BanditPlayer_init b e ns (UCB st) True bl nm) g =
          (case BanditPlayer_run (BanditPlayer_init b e ns (UCB st) False bl nm) g of
             Inl err \<Rightarrow> Inl err
           | Inr (p', g') \<Rightarrow> Inr (p'\<lparr>optimist := True\<rparr>, g'))"
    unfolding BanditPlayer_run_def ns by (rule run_steps_initial_UCB[OF ne])
qed


theorem UCB_ignores_preference_values_witness:
  "UCB_estimate_values (UCB_init 2) [Fin 5, Fin 5] [1, 0] 0 2 =
     UCB_estimate_values (UCB_init 2) [Fin 0, Fin 0] [1, 0] 0 2 \<and>
   use_arm (player_ucb\<lparr>preferences := [Fin 5, Fin 5]\<rparr>) 0 g_ones = use_arm player_ucb 0 g_ones \<and>
   BanditPlayer_run (BanditPlayer_init bandit_fixed 0 1 (UCB (UCB_init 2)) True 5 ''UCB'') g_ones =
     Inr (player_ucb_after\<lparr>optimist := True\<rparr>, g_ones\<lparr>drawn := 2\<rparr>)"
proof -
  have len: "length [Fin 5, Fin 5] = length [Fin 0, Fin 0]" by simp
  note inst = UCB_ignores_preference_values[OF len, of "UCB_init 2" "[1, 0]" 0 2]
  have p: "strategy player_ucb = UCB (UCB_init 2) \<and> preferences player_ucb = [Fin 0, Fin 0]"
    by (simp add: player_ucb_def BanditPlayer_init_def initial_preferences_def
        bandit_fixed_def numeral_2_eq_2)
  from inst have c1: "UCB_estimate_values (UCB_init 2) [Fin 5, Fin 5] [1, 0] 0 2 =
     UCB_estimate_values (UCB_init 2) [Fin 0, Fin 0] [1, 0] 0 2"
    by (rule conjunct1)
  from inst[THEN conjunct2, THEN conjunct1, rule_format, OF p, of g_ones]
  have c2: "use_arm (player_ucb\<lparr>preferences := [Fin 5, Fin 5]\<rparr>) 0 g_ones =
      use_arm player_ucb 0 g_ones"
    by (rule conjunct1)
  have ns: "0 < (1 :: nat)" by simp
  from inst[THEN conjunct2, THEN conjunct2, rule_format, OF ns, of bandit_fixed 0 5 "''UCB''" g_ones]
  have c3: "BanditPlayer_run (BanditPlayer_init bandit_fixed 0 1 (UCB (UCB_init 2)) True 5 ''UCB'') g_ones =
     Inr (player_ucb_after\<lparr>optimist := True\<rparr>, g_ones\<lparr>drawn := 2\<rparr>)"
    unfolding player_ucb_def[symmetric] run_player_ucb by simp
  from c1 c2 c3 show ?thesis by blast
qed

section \<open>BanditPlayer: steps, runs and reset\<close>

lemma use_arm_call_Inr:
  assumes "use_arm_call p indx g = Inr ((prefs, counts, i, reward), b', g')"
  shows "i = indx \<and> prefs = preferences p \<and> indx < length (number_of_actions p) \<and>
         counts = (number_of_actions p)[indx := number_of_actions p ! indx + 1] \<and>
         Bandit_action (bandit p) indx g = (Inr reward, b', g')"
  using assms
  by (auto simp: use_arm_call_def Let_def split: if_splits prod.splits sum.splits)

lemma use_arm_Inr:
  assumes "use_arm p indx g = Inr (reward, p', g')"
  shows "\<exists>b' s' prefs'.
     use_arm_call p indx g =
       Inr ((preferences p, (number_of_actions p)[indx := number_of_actions p ! indx + 1],
             indx, reward), b', g') \<and>
     estimate_values (strategy p) (preferences p)
       ((number_of_actions p)[indx := number_of_actions p ! indx + 1]) indx reward =
       Inr (s', prefs') \<and>
     p' = p\<lparr>number_of_actions := (number_of_actions p)[indx := number_of_actions p ! indx + 1],
            bandit := b', strategy := s', preferences := prefs'\<rparr>"
proof -
  from assms obtain prefs counts i r b' g1 where
    call: "use_arm_call p indx g = Inr ((prefs, counts, i, r), b', g1)"
    by (auto simp: use_arm_def split: sum.splits)
  note c = use_arm_call_Inr[OF call]
  from assms call c show ?thesis
    by (auto simp: use_arm_def split: sum.splits)
qed

lemma use_arm_frame:
  assumes "use_arm p indx g = Inr (reward, p', g')"
  shows "eps p' = eps p \<and> n_steps p' = n_steps p \<and> optimist p' = optimist p \<and>
         baseline p' = baseline p \<and> name p' = name p \<and> rewards p' = rewards p \<and>
         bandit_n (bandit p') = bandit_n (bandit p) \<and> bandit_q (bandit p') = bandit_q (bandit p) \<and>
         bandit_incr_dev (bandit p') = bandit_incr_dev (bandit p)"
proof -
  from use_arm_Inr[OF assms] obtain b' s' prefs' where
    call: "use_arm_call p indx g =
       Inr ((preferences p, (number_of_actions p)[indx := number_of_actions p ! indx + 1],
             indx, reward), b', g')"
    and p': "p' = p\<lparr>number_of_actions := (number_of_actions p)[indx := number_of_actions p ! indx + 1],
            bandit := b', strategy := s', preferences := prefs'\<rparr>"
    by blast
  from use_arm_call_Inr[OF call] have "Bandit_action (bandit p) indx g = (Inr reward, b', g')"
    by simp
  from Bandit_action_frame[OF this] p' show ?thesis by simp
qed

lemma run_steps_frame:
  assumes "run_steps steps p g = Inr (p', g')"
  shows "eps p' = eps p \<and> n_steps p' = n_steps p \<and> optimist p' = optimist p \<and>
         baseline p' = baseline p \<and> name p' = name p \<and>
         length (rewards p') = length (rewards p) \<and>
         bandit_n (bandit p') = bandit_n (bandit p) \<and> bandit_q (bandit p') = bandit_q (bandit p) \<and>
         bandit_incr_dev (bandit p') = bandit_incr_dev (bandit p)"
  using assms
proof (induction steps arbitrary: p g)
  case Nil
  then show ?case by simp
next
  case (Cons step steps)
  from Cons.prems obtain indx g1 where ids: "get_arms_id p g = Inr (indx, g1)"
    by (auto split: sum.splits)
  from Cons.prems ids obtain r p1 g2 where use: "use_arm p indx g1 = Inr (r, p1, g2)"
    by (auto split: sum.splits)
  from Cons.prems ids use have
    rest: "run_steps steps (p1\<lparr>rewards := (rewards p1)[step := r]\<rparr>) g2 = Inr (p', g')"
    by (auto split: if_splits)
  from Cons.IH[OF rest] use_arm_frame[OF use] show ?case by simp
qed

text \<open>
  C9.  When \<open>use_arm\<close> invokes the strategy, the action count passed for the chosen
  index is at least 1, because the count is incremented before the bandit is pulled and
  the strategy is called.  So \<open>1 / number_of_actions[indx]\<close> is a finite quotient, and the
  sample-average updates of SampleAverages and of UCB's internal values keep finite
  values finite: no division by zero occurs.
\<close>

theorem use_arm_count_at_least_one:
  assumes "use_arm_call p indx g = Inr ((prefs, counts, i, reward), b', g')"
  shows "i = indx \<and> i < length counts \<and> 1 \<le> counts ! i \<and>
     counts = (number_of_actions p)[indx := number_of_actions p ! indx + 1] \<and>
     fl_div (Fin 1) (Fin (real (counts ! i))) = Fin (1 / real (counts ! i)) \<and>
     use_arm p indx g =
       (case estimate_values (strategy p) prefs counts i reward of
          Inl e \<Rightarrow> Inl e
        | Inr (s', prefs') \<Rightarrow>
            Inr (reward, p\<lparr>number_of_actions := counts, bandit := b', strategy := s',
                          preferences := prefs'\<rparr>, g')) \<and>
     (\<forall>q prefs'. prefs = map Fin q \<and>
         SampleAverages_estimate_values prefs counts i reward = Inr prefs' \<longrightarrow>
         (\<exists>q'. prefs' = map Fin q')) \<and>
     (\<forall>st v st' out. UCB_init_values st (length prefs) = map Fin v \<and>
         UCB_estimate_values st prefs counts i reward = Inr (st', out) \<longrightarrow>
         (\<exists>v'. ucb_values st' = Some (map Fin v')))"
proof -
  note c = use_arm_call_Inr[OF assms]
  from c have i: "i = indx" and lt: "i < length counts" and
    counts: "counts = (number_of_actions p)[indx := number_of_actions p ! indx + 1]"
    by simp_all
  from c have ge: "1 \<le> counts ! i" by simp
  then have div: "fl_div (Fin 1) (Fin (real (counts ! i))) = Fin (1 / real (counts ! i))"
    by simp
  have use: "use_arm p indx g =
       (case estimate_values (strategy p) prefs counts i reward of
          Inl e \<Rightarrow> Inl e
        | Inr (s', prefs') \<Rightarrow>
            Inr (reward, p\<lparr>number_of_actions := counts, bandit := b', strategy := s',
                          preferences := prefs'\<rparr>, g'))"
    by (simp add: use_arm_def assms)
  have sa: "\<exists>q'. prefs' = map Fin q'"
    if "prefs = map Fin q" "SampleAverages_estimate_values prefs counts i reward = Inr prefs'"
    for q prefs'
  proof -
    from that have "i < length q" and
      "prefs' = (map Fin q)[i := fl_add (map Fin q ! i)
             (fl_mul (fl_div (Fin 1) (Fin (real (counts ! i)))) (fl_sub (Fin reward) (map Fin q ! i)))]"
      by (auto simp: SampleAverages_estimate_values_def split: if_splits)
    with div have "prefs' = map Fin (q[i := q ! i + 1 / real (counts ! i) * (reward - q ! i)])"
      by (simp add: fl_sub_def map_update)
    then show ?thesis ..
  qed
  have ucb: "\<exists>v'. ucb_values st' = Some (map Fin v')"
    if "UCB_init_values st (length prefs) = map Fin v"
      "UCB_estimate_values st prefs counts i reward = Inr (st', out)"
    for st v st' out
  proof -
    from that have iv: "i < length v" and
      "ucb_values st' = Some ((map Fin v)[i := fl_add (map Fin v ! i)
             (fl_mul (fl_div (Fin 1) (Fin (real (counts ! i)))) (fl_sub (Fin reward) (map Fin v ! i)))])"
      by (auto simp: UCB_estimate_values_def Let_def split: if_splits sum.splits)
    with div have "ucb_values st' =
        Some (map Fin (v[i := v ! i + 1 / real (counts ! i) * (reward - v ! i)]))"
      by (simp add: fl_sub_def map_update)
    then show ?thesis ..
  qed
  from i lt ge counts div use sa ucb show ?thesis by blast
qed

theorem use_arm_count_at_least_one_witness:
  "use_arm_call player_ucb 0 g_ones =
     Inr (([Fin 0, Fin 0], [1, 0], 0, 2), bandit_fixed, g_ones\<lparr>drawn := 1\<rparr>) \<and>
   1 \<le> [1, 0 :: nat] ! 0 \<and>
   fl_div (Fin 1) (Fin (real ([1, 0 :: nat] ! 0))) = Fin (1 / real ([1, 0 :: nat] ! 0))"
proof -
  have call: "use_arm_call player_ucb 0 g_ones =
     Inr (([Fin 0, Fin 0], [1, 0], 0, 2), bandit_fixed, g_ones\<lparr>drawn := 1\<rparr>)"
    by (simp add: use_arm_call_def player_ucb_def BanditPlayer_init_def
        initial_preferences_def Bandit_action_def bandit_fixed_def Arm_reset_q_def
        Arm_action_def next_draw_def g_ones_def numeral_2_eq_2)
  from use_arm_count_at_least_one[OF call] call show ?thesis by blast
qed

section \<open>BanditPlayer: what reset restores\<close>

lemma Bandit_action_arms:
  "Bandit_action b i g = (r, b', g') \<Longrightarrow> b' = b\<lparr>arms := arms b'\<rparr>"
  by (auto simp: Bandit_action_def Let_def split: prod.splits option.splits if_splits)

lemma use_arm_bandit_arms:
  assumes "use_arm p indx g = Inr (reward, p', g')"
  shows "bandit p' = (bandit p)\<lparr>arms := arms (bandit p')\<rparr>"
proof -
  from use_arm_Inr[OF assms] obtain b' s' prefs' where
    call: "use_arm_call p indx g =
       Inr ((preferences p, (number_of_actions p)[indx := number_of_actions p ! indx + 1],
             indx, reward), b', g')"
    and p': "p' = p\<lparr>number_of_actions := (number_of_actions p)[indx := number_of_actions p ! indx + 1],
            bandit := b', strategy := s', preferences := prefs'\<rparr>"
    by blast
  from use_arm_call_Inr[OF call] have "Bandit_action (bandit p) indx g = (Inr reward, b', g')"
    by simp
  from Bandit_action_arms[OF this] p' show ?thesis by simp
qed

lemma run_steps_bandit_arms:
  assumes "run_steps steps p g = Inr (p', g')"
  shows "bandit p' = (bandit p)\<lparr>arms := arms (bandit p')\<rparr>"
  using assms
proof (induction steps arbitrary: p g)
  case Nil
  then show ?case by simp
next
  case (Cons step steps)
  from Cons.prems obtain indx g1 where ids: "get_arms_id p g = Inr (indx, g1)"
    by (auto split: sum.splits)
  from Cons.prems ids obtain r p1 g2 where use: "use_arm p indx g1 = Inr (r, p1, g2)"
    by (auto split: sum.splits)
  from Cons.prems ids use have
    rest: "run_steps steps (p1\<lparr>rewards := (rewards p1)[step := r]\<rparr>) g2 = Inr (p', g')"
    by (auto split: if_splits)
  from Cons.IH[OF rest] have "bandit p' = (bandit p1)\<lparr>arms := arms (bandit p')\<rparr>" by simp
  moreover note use_arm_bandit_arms[OF use]
  ultimately have "bandit p' = (bandit p)\<lparr>arms := arms (bandit p1)\<rparr>\<lparr>arms := arms (bandit p')\<rparr>"
    by simp
  then show ?case by simp
qed

lemma BanditPlayer_reset_restores_arrays:
  assumes "BanditPlayer_run (BanditPlayer_init b e ns s opt bl nm) g = Inr (p1, g1)"
    and "BanditPlayer_reset p1 g1 = (p2, g2)"
  shows "rewards p2 = rewards (BanditPlayer_init b e ns s opt bl nm) \<and>
     number_of_actions p2 = number_of_actions (BanditPlayer_init b e ns s opt bl nm) \<and>
     preferences p2 = preferences (BanditPlayer_init b e ns s opt bl nm) \<and>
     rewards p2 = replicate ns 0 \<and>
     number_of_actions p2 = replicate (bandit_n b) 0 \<and>
     preferences p2 = replicate (bandit_n b) (Fin (if opt then bl else 0)) \<and>
     p2\<lparr>strategy := s\<rparr> =
       (BanditPlayer_init b e ns s opt bl nm)\<lparr>bandit := fst (Bandit_reset b g1)\<rparr>"
proof -
  let ?p0 = "BanditPlayer_init b e ns s opt bl nm"
  from assms(1) have run: "run_steps [0..<ns] ?p0 g = Inr (p1, g1)"
    by (simp add: BanditPlayer_run_def BanditPlayer_init_def)
  note f = run_steps_frame[OF run]
  have init: "eps ?p0 = e" "n_steps ?p0 = ns" "optimist ?p0 = opt" "baseline ?p0 = bl"
    "name ?p0 = nm" "bandit ?p0 = b" "rewards ?p0 = replicate ns 0"
    "number_of_actions ?p0 = replicate (bandit_n b) 0"
    "preferences ?p0 = initial_preferences opt bl (bandit_n b)" "strategy ?p0 = s"
    by (simp_all add: BanditPlayer_init_def)
  from run_steps_bandit_arms[OF run] init have b1: "bandit p1 = b\<lparr>arms := arms (bandit p1)\<rparr>"
    by simp
  have "Bandit_reset (b\<lparr>arms := as\<rparr>) g1 = Bandit_reset b g1" for as
    by (simp add: Bandit_reset_def split_beta)
  with b1 have br: "Bandit_reset (bandit p1) g1 = Bandit_reset b g1" by metis
  have bn: "bandit_n (fst (Bandit_reset b g1)) = bandit_n b"
    by (simp add: Bandit_reset_def split_beta)
  from assms(2) br bn have p2: "p2 = p1\<lparr>bandit := fst (Bandit_reset b g1),
            rewards := replicate (n_steps p1) 0,
            number_of_actions := replicate (bandit_n b) 0,
            preferences := initial_preferences (optimist p1) (baseline p1) (bandit_n b)\<rparr>"
    by (simp add: BanditPlayer_reset_def split_beta)
  have arrays: "rewards p2 = replicate ns 0" "number_of_actions p2 = replicate (bandit_n b) 0"
    "preferences p2 = initial_preferences opt bl (bandit_n b)"
    using f init p2 by simp_all
  have whole: "p2\<lparr>strategy := s\<rparr> = ?p0\<lparr>bandit := fst (Bandit_reset b g1)\<rparr>"
    using f init arrays p2 by (intro BanditPlayer.equality) simp_all
  from arrays init whole show ?thesis
    by (simp add: initial_preferences_const)
qed

lemma estimate_values_stateless:
  assumes "s = SampleAverages \<or> s = ConstantStepSize alpha"
    and "estimate_values s prefs counts i r = Inr (s', prefs')"
  shows "s' = s"
  using assms by (auto split: sum.splits)

lemma use_arm_stateless:
  assumes "strategy p = SampleAverages \<or> strategy p = ConstantStepSize alpha"
    and "use_arm p indx g = Inr (reward, p', g')"
  shows "strategy p' = strategy p"
proof -
  from use_arm_Inr[OF assms(2)] obtain b' s' prefs' where
    est: "estimate_values (strategy p) (preferences p)
       ((number_of_actions p)[indx := number_of_actions p ! indx + 1]) indx reward =
       Inr (s', prefs')"
    and p': "p' = p\<lparr>number_of_actions := (number_of_actions p)[indx := number_of_actions p ! indx + 1],
            bandit := b', strategy := s', preferences := prefs'\<rparr>"
    by blast
  from estimate_values_stateless[OF assms(1) est] p' show ?thesis by simp
qed

lemma run_steps_stateless:
  assumes "strategy p = SampleAverages \<or> strategy p = ConstantStepSize alpha"
    and "run_steps steps p g = Inr (p', g')"
  shows "strategy p' = strategy p"
  using assms
proof (induction steps arbitrary: p g)
  case Nil
  then show ?case by simp
next
  case (Cons step steps)
  from Cons.prems(2) obtain indx g1 where ids: "get_arms_id p g = Inr (indx, g1)"
    by (auto split: sum.splits)
  from Cons.prems(2) ids obtain r p1 g2 where use: "use_arm p indx g1 = Inr (r, p1, g2)"
    by (auto split: sum.splits)
  from Cons.prems(2) ids use have
    rest: "run_steps steps (p1\<lparr>rewards := (rewards p1)[step := r]\<rparr>) g2 = Inr (p', g')"
    by (auto split: if_splits)
  note s1 = use_arm_stateless[OF Cons.prems(1) use]
  with Cons.prems(1) have
    "strategy (p1\<lparr>rewards := (rewards p1)[step := r]\<rparr>) = SampleAverages \<or>
     strategy (p1\<lparr>rewards := (rewards p1)[step := r]\<rparr>) = ConstantStepSize alpha"
    by simp
  from Cons.IH[OF this rest] s1 show ?case by simp
qed

lemma BanditPlayer_reset_stateless:
  assumes "s = SampleAverages \<or> s = ConstantStepSize alpha"
    and "BanditPlayer_run (BanditPlayer_init b e ns s opt bl nm) g = Inr (p1, g1)"
    and "BanditPlayer_reset p1 g1 = (p2, g2)"
  shows "p2 = (BanditPlayer_init b e ns s opt bl nm)\<lparr>bandit := fst (Bandit_reset b g1)\<rparr>"
proof -
  let ?p0 = "BanditPlayer_init b e ns s opt bl nm"
  have s0: "strategy ?p0 = s" by (simp add: BanditPlayer_init_def)
  from assms(2) have run: "run_steps [0..<ns] ?p0 g = Inr (p1, g1)"
    by (simp add: BanditPlayer_run_def BanditPlayer_init_def)
  from assms(1) s0 have "strategy ?p0 = SampleAverages \<or> strategy ?p0 = ConstantStepSize alpha"
    by simp
  from run_steps_stateless[OF this run] s0 have "strategy p1 = s" by simp
  with assms(3) have "strategy p2 = s"
    by (auto simp: BanditPlayer_reset_def split_beta)
  then have "p2\<lparr>strategy := s\<rparr> = p2" by simp
  with BanditPlayer_reset_restores_arrays[OF assms(2,3)] show ?thesis by simp
qed

lemma reset_player_ucb_after:
  "BanditPlayer_reset player_ucb_after (g_ones\<lparr>drawn := 2\<rparr>) =
     (player_ucb\<lparr>strategy := UCB \<lparr>ucb_c = 2, ucb_time = 2, ucb_values = Some [Fin 2, Fin 0]\<rparr>\<rparr>,
      g_ones\<lparr>drawn := 2\<rparr>)"
  by (simp add: BanditPlayer_reset_def Bandit_reset_def player_ucb_after_def player_ucb_def
      BanditPlayer_init_def bandit_fixed_def Arm_init_def initial_preferences_def
      numeral_2_eq_2)

lemma rerun_player_ucb:
  "BanditPlayer_run
     (player_ucb\<lparr>strategy := UCB \<lparr>ucb_c = 2, ucb_time = 2, ucb_values = Some [Fin 2, Fin 0]\<rparr>\<rparr>)
     (g_ones\<lparr>drawn := 2\<rparr>) =
   Inr (player_ucb_after
          \<lparr>strategy := UCB \<lparr>ucb_c = 2, ucb_time = 3, ucb_values = Some [Fin 2, Fin 0]\<rparr>,
           preferences := [Fin (2 + 2 * sqrt (ln 3)), PInf]\<rparr>,
        g_ones\<lparr>drawn := 4\<rparr>)"
  by (simp add: BanditPlayer_run_def player_ucb_def player_ucb_after_def BanditPlayer_init_def
      initial_preferences_def get_arms_id_def random_binomial1_def next_draw_def g_ones_def
      use_arm_def use_arm_call_def Bandit_action_def bandit_fixed_def Arm_reset_q_def
      Arm_action_def UCB_estimate_values_def UCB_init_values_def np_log_def
      np_broadcast_def fl_sub_def numeral_2_eq_2)

text \<open>
  C1.  After \<open>BanditPlayer.reset\<close> the player should hold nothing of the run before it:
  rewards, preferences and action counts as constructed, and no other state, that of
  its strategy included.  The arrays are restored and a stateless strategy has nothing
  to restore, as the lemmas above show.  The state of a stateful strategy is not
  reinitialised: for the greedy one-step player \<open>player_ucb\<close>, after a run and a reset
  the UCB instance holds the time 2 and the values 2 and 0 instead of the time 1 and no
  values, and the same run repeated after the reset ends with other preferences than the
  run of a freshly constructed player.
\<close>

theorem BanditPlayer_reset_keeps_strategy_state:
  "BanditPlayer_run player_ucb g_ones = Inr (player_ucb_after, g_ones\<lparr>drawn := 2\<rparr>) \<and>
   strategy player_ucb = UCB \<lparr>ucb_c = 2, ucb_time = 1, ucb_values = None\<rparr> \<and>
   strategy (fst (BanditPlayer_reset player_ucb_after (g_ones\<lparr>drawn := 2\<rparr>))) =
     UCB \<lparr>ucb_c = 2, ucb_time = 2, ucb_values = Some [Fin 2, Fin 0]\<rparr> \<and>
   strategy (fst (BanditPlayer_reset player_ucb_after (g_ones\<lparr>drawn := 2\<rparr>))) \<noteq>
     strategy player_ucb \<and>
   map_sum id (preferences \<circ> fst)
     (BanditPlayer_run (fst (BanditPlayer_reset player_ucb_after (g_ones\<lparr>drawn := 2\<rparr>)))
        (snd (BanditPlayer_reset player_ucb_after (g_ones\<lparr>drawn := 2\<rparr>)))) =
     Inr [Fin (2 + 2 * sqrt (ln 3)), PInf] \<and>
   map_sum id (preferences \<circ> fst) (BanditPlayer_run player_ucb (g_ones\<lparr>drawn := 2\<rparr>)) =
     Inr [Fin (2 + 2 * sqrt (ln 2)), PInf] \<and>
   Fin (2 + 2 * sqrt (ln 3)) \<noteq> Fin (2 + 2 * sqrt (ln 2))"
proof (intro conjI)
  show "BanditPlayer_run player_ucb g_ones = Inr (player_ucb_after, g_ones\<lparr>drawn := 2\<rparr>)"
    by (rule run_player_ucb)
  show "strategy player_ucb = UCB \<lparr>ucb_c = 2, ucb_time = 1, ucb_values = None\<rparr>"
    by (simp add: player_ucb_def BanditPlayer_init_def UCB_init_def)
  show "strategy (fst (BanditPlayer_reset player_ucb_after (g_ones\<lparr>drawn := 2\<rparr>))) =
     UCB \<lparr>ucb_c = 2, ucb_time = 2, ucb_values = Some [Fin 2, Fin 0]\<rparr>"
    unfolding reset_player_ucb_after by simp
  show "strategy (fst (BanditPlayer_reset player_ucb_after (g_ones\<lparr>drawn := 2\<rparr>))) \<noteq>
     strategy player_ucb"
    unfolding reset_player_ucb_after
    by (simp add: player_ucb_def BanditPlayer_init_def UCB_init_def)
  show "map_sum id (preferences \<circ> fst)
     (BanditPlayer_run (fst (BanditPlayer_reset player_ucb_after (g_ones\<lparr>drawn := 2\<rparr>)))
        (snd (BanditPlayer_reset player_ucb_after (g_ones\<lparr>drawn := 2\<rparr>)))) =
     Inr [Fin (2 + 2 * sqrt (ln 3)), PInf]"
    unfolding reset_player_ucb_after fst_conv snd_conv rerun_player_ucb by simp
  show "map_sum id (preferences \<circ> fst) (BanditPlayer_run player_ucb (g_ones\<lparr>drawn := 2\<rparr>)) =
     Inr [Fin (2 + 2 * sqrt (ln 2)), PInf]"
    by (simp add: BanditPlayer_run_def player_ucb_def BanditPlayer_init_def
      initial_preferences_def get_arms_id_def random_binomial1_def next_draw_def g_ones_def
      use_arm_def use_arm_call_def Bandit_action_def bandit_fixed_def Arm_reset_q_def
      Arm_action_def UCB_estimate_values_def UCB_init_values_def UCB_init_def np_log_def
      np_broadcast_def fl_sub_def numeral_2_eq_2)
  show "Fin (2 + 2 * sqrt (ln 3)) \<noteq> Fin (2 + 2 * sqrt (ln 2))"
    by simp
qed

section \<open>BanditPlayer with SampleAverages\<close>

lemma use_arm_SampleAverages:
  assumes "strategy p = SampleAverages" and "use_arm p a g = Inr (r, p', g')"
  shows "a < length (number_of_actions p) \<and> a < length (preferences p) \<and>
     strategy p' = SampleAverages \<and>
     number_of_actions p' = (number_of_actions p)[a := number_of_actions p ! a + 1] \<and>
     preferences p' = (preferences p)[a :=
        fl_add (preferences p ! a)
          (fl_mul (fl_div (Fin 1) (Fin (real (number_of_actions p ! a + 1))))
             (fl_sub (Fin r) (preferences p ! a)))]"
proof -
  let ?counts = "(number_of_actions p)[a := number_of_actions p ! a + 1]"
  from use_arm_Inr[OF assms(2)] obtain b' s' prefs' where
    call: "use_arm_call p a g = Inr ((preferences p, ?counts, a, r), b', g')"
    and est: "estimate_values (strategy p) (preferences p) ?counts a r = Inr (s', prefs')"
    and p': "p' = p\<lparr>number_of_actions := ?counts, bandit := b', strategy := s',
                      preferences := prefs'\<rparr>"
    by blast
  from use_arm_call_Inr[OF call] have lt: "a < length (number_of_actions p)" by simp
  from est assms(1) lt have "a < length (preferences p)" "s' = SampleAverages"
    "prefs' = (preferences p)[a :=
        fl_add (preferences p ! a)
          (fl_mul (fl_div (Fin 1) (Fin (real (number_of_actions p ! a + 1))))
             (fl_sub (Fin r) (preferences p ! a)))]"
    by (auto simp: SampleAverages_estimate_values_def split: if_splits sum.splits)
  with lt p' show ?thesis by simp
qed

lemma use_arms_SampleAverages_inv:
  assumes "strategy p = SampleAverages"
    and "length (number_of_actions p) = n" and "length (preferences p) = n"
    and "\<forall>i<n. \<exists>x. preferences p ! i = Fin x \<and> x * real (number_of_actions p ! i) = S i"
    and "use_arms p idxs g = Inr (rs, p', g')"
  shows "length rs = length idxs \<and>
     length (number_of_actions p') = n \<and> length (preferences p') = n \<and>
     (\<forall>i<n. number_of_actions p' ! i = number_of_actions p ! i + count_list idxs i) \<and>
     (\<forall>i<n. \<exists>x. preferences p' ! i = Fin x \<and>
        x * real (number_of_actions p' ! i) =
          S i + sum_list (map snd (filter (\<lambda>jr. fst jr = i) (zip idxs rs))))"
  using assms
proof (induction idxs arbitrary: p g rs S)
  case Nil
  then show ?case by simp
next
  case (Cons a idxs)
  from Cons.prems(5) obtain r p1 g1 where use: "use_arm p a g = Inr (r, p1, g1)"
    by (auto split: sum.splits)
  with Cons.prems(5) obtain rs' where rest: "use_arms p1 idxs g1 = Inr (rs', p', g')"
    and rs: "rs = r # rs'"
    by (auto split: sum.splits)
  note step = use_arm_SampleAverages[OF Cons.prems(1) use]
  from step Cons.prems(2) have a: "a < n" by simp
  from step have s1: "strategy p1 = SampleAverages" by simp
  from step Cons.prems(2,3) have l1: "length (number_of_actions p1) = n"
    "length (preferences p1) = n" by simp_all
  have inv1: "\<forall>i<n. \<exists>x. preferences p1 ! i = Fin x \<and>
       x * real (number_of_actions p1 ! i) = (S(a := S a + r)) i"
  proof (intro allI impI)
    fix i assume i: "i < n"
    from Cons.prems(4) i obtain x where
      x: "preferences p ! i = Fin x" "x * real (number_of_actions p ! i) = S i" by blast
    show "\<exists>x. preferences p1 ! i = Fin x \<and>
       x * real (number_of_actions p1 ! i) = (S(a := S a + r)) i"
    proof (cases "i = a")
      case True
      let ?c = "real (number_of_actions p ! a + 1)"
      have c: "?c \<noteq> 0" by simp
      from step True x a Cons.prems(2,3)
      have p: "preferences p1 ! i = Fin (x + 1 / ?c * (r - x))"
        by (simp add: fl_sub_def)
      have n1: "number_of_actions p1 ! i = number_of_actions p ! a + 1"
        using step True a Cons.prems(2) by simp
      have "(x + 1 / ?c * (r - x)) * ?c = x * ?c + (r - x)"
        using c by (simp add: field_simps)
      also have "\<dots> = x * real (number_of_actions p ! a) + r"
        by (simp add: algebra_simps)
      also have "\<dots> = S a + r" using x True by simp
      finally show ?thesis using p n1 True by (intro exI[of _ "x + 1 / ?c * (r - x)"]) simp
    next
      case False
      with step x show ?thesis by simp
    qed
  qed
  note ih = Cons.IH[OF s1 l1 inv1 rest]
  have cnt: "number_of_actions p1 ! i = number_of_actions p ! i + (if i = a then 1 else 0)"
    if "i < n" for i
    using step that Cons.prems(2) by (simp add: nth_list_update)
  have counts: "\<forall>i<n. number_of_actions p' ! i = number_of_actions p ! i + count_list (a # idxs) i"
    using ih cnt by auto
  have sums: "\<forall>i<n. \<exists>x. preferences p' ! i = Fin x \<and>
        x * real (number_of_actions p' ! i) =
          S i + sum_list (map snd (filter (\<lambda>jr. fst jr = i) (zip (a # idxs) rs)))"
  proof (intro allI impI)
    fix i assume i: "i < n"
    from ih i obtain x where x: "preferences p' ! i = Fin x"
      "x * real (number_of_actions p' ! i) =
         (S(a := S a + r)) i + sum_list (map snd (filter (\<lambda>jr. fst jr = i) (zip idxs rs')))"
      by blast
    then show "\<exists>x. preferences p' ! i = Fin x \<and>
        x * real (number_of_actions p' ! i) =
          S i + sum_list (map snd (filter (\<lambda>jr. fst jr = i) (zip (a # idxs) rs)))"
      by (intro exI[of _ x]) (simp add: rs)
  qed
  from ih counts sums rs show ?case by simp
qed


text \<open>
  C4.  For a player using SampleAverages that starts with all action counts at 0 and any
  finite preferences (an optimistic baseline included), after any sequence of steps, in
  any interleaving of the arms, every arm chosen \<open>k \<ge> 1\<close> times holds as its preference
  the exact arithmetic mean of the \<open>k\<close> rewards it received, and its count is \<open>k\<close>.
\<close>

theorem SampleAverages_preference_is_mean:
  assumes "strategy p = SampleAverages"
    and "number_of_actions p = replicate n 0"
    and "preferences p = map Fin q0" and "length q0 = n"
    and "use_arms p idxs g = Inr (rs, p', g')"
  shows "length rs = length idxs \<and>
     (\<forall>i<n. number_of_actions p' ! i = count_list idxs i \<and>
        (0 < count_list idxs i \<longrightarrow>
           preferences p' ! i =
             Fin (sum_list (map snd (filter (\<lambda>(j, r). j = i) (zip idxs rs))) /
                  real (count_list idxs i))))"
proof -
  have l: "length (number_of_actions p) = n" "length (preferences p) = n"
    using assms(2,3,4) by simp_all
  have inv0: "\<forall>i<n. \<exists>x. preferences p ! i = Fin x \<and>
      x * real (number_of_actions p ! i) = (\<lambda>_. 0) i"
    using assms(2,3,4) by simp
  note r = use_arms_SampleAverages_inv[OF assms(1) l inv0 assms(5)]
  have eq: "(\<lambda>(j, r). j = i) = (\<lambda>jr :: nat \<times> real. fst jr = i)" for i
    by (auto simp: fun_eq_iff)
  have "number_of_actions p' ! i = count_list idxs i \<and>
        (0 < count_list idxs i \<longrightarrow>
           preferences p' ! i =
             Fin (sum_list (map snd (filter (\<lambda>(j, r). j = i) (zip idxs rs))) /
                  real (count_list idxs i)))" if i: "i < n" for i
  proof -
    from r i assms(2) have c: "number_of_actions p' ! i = count_list idxs i" by simp
    from r i obtain x where x: "preferences p' ! i = Fin x"
      "x * real (number_of_actions p' ! i) =
         0 + sum_list (map snd (filter (\<lambda>jr. fst jr = i) (zip idxs rs)))"
      by blast
    from x(2) c have "0 < count_list idxs i \<Longrightarrow>
        x = sum_list (map snd (filter (\<lambda>jr. fst jr = i) (zip idxs rs))) / real (count_list idxs i)"
      by (simp add: field_simps)
    with c x(1) show ?thesis unfolding eq by simp
  qed
  with r show ?thesis by blast
qed

lemma use_arms_player_sa:
  "use_arms player_sa [0, 1, 0] g_halves =
     Inr ([2, 1 / 2, 3],
          player_sa\<lparr>number_of_actions := [2, 1],
                    bandit := bandit_pm1\<lparr>arms := [\<lparr>arm_q = 5 / 2, arm_incr_dev = 1\<rparr>,
                                                 \<lparr>arm_q = 1 / 2, arm_incr_dev = 1\<rparr>]\<rparr>,
                    preferences := [Fin (5 / 2), Fin (1 / 2)]\<rparr>,
          g_halves\<lparr>drawn := 9\<rparr>)"
  by (simp add: player_sa_def BanditPlayer_init_def initial_preferences_def bandit_pm1_def
      g_halves_def use_arm_def use_arm_call_def Bandit_action_def Arm_reset_q_def
      random_normal_def Arm_action_def next_draw_def SampleAverages_estimate_values_def
      fl_sub_def numeral_2_eq_2)

theorem SampleAverages_preference_is_mean_witness:
  "\<exists>p' g'. use_arms player_sa [0, 1, 0] g_halves = Inr ([2, 1 / 2, 3], p', g') \<and>
     preferences player_sa = [Fin 5, Fin 5] \<and>
     number_of_actions p' ! 0 = 2 \<and> preferences p' ! 0 = Fin ((2 + 3) / 2) \<and>
     number_of_actions p' ! 1 = 1 \<and> preferences p' ! 1 = Fin ((1 / 2) / 1)"
proof -
  let ?p' = "player_sa\<lparr>number_of_actions := [2, 1],
                    bandit := bandit_pm1\<lparr>arms := [\<lparr>arm_q = 5 / 2, arm_incr_dev = 1\<rparr>,
                                                 \<lparr>arm_q = 1 / 2, arm_incr_dev = 1\<rparr>]\<rparr>,
                    preferences := [Fin (5 / 2), Fin (1 / 2)]\<rparr>"
  have h1: "strategy player_sa = SampleAverages"
    and h2: "number_of_actions player_sa = replicate 2 0"
    and h3: "preferences player_sa = map Fin [5, 5]"
    by (simp_all add: player_sa_def BanditPlayer_init_def initial_preferences_def
        bandit_pm1_def numeral_2_eq_2)
  have h4: "length [5, 5 :: real] = 2" by simp
  note t = SampleAverages_preference_is_mean[OF h1 h2 h3 h4 use_arms_player_sa]
  have i0: "0 < (2 :: nat)" and i1: "1 < (2 :: nat)" by simp_all
  note t0 = t[THEN conjunct2, rule_format, OF i0]
  note t1 = t[THEN conjunct2, rule_format, OF i1]
  from t0 have "number_of_actions ?p' ! 0 = 2" "preferences ?p' ! 0 = Fin ((2 + 3) / 2)"
    by simp_all
  moreover from t1 have "number_of_actions ?p' ! 1 = 1" "preferences ?p' ! 1 = Fin ((1 / 2) / 1)"
    by simp_all
  ultimately show ?thesis
    using use_arms_player_sa h3 by (intro exI[of _ ?p'] exI[of _ "g_halves\<lparr>drawn := 9\<rparr>"]) simp
qed

end
